theory Spec2Isabelle
  imports Main "HOL-Library.Word" "HOL-Library.Sublist"
begin

section \<open>Data model of \<^verbatim>\<open>load_balancer.cpp\<close>\<close>

text \<open>
  The counters of the registry are C++ \<^verbatim>\<open>int\<close> (32 bits, two's complement, read with
  \<open>sint\<close>); the round-robin cursor and the hash value are \<^verbatim>\<open>size_t\<close> (64 bits on the
  LP64 targets of this POSIX program, unsigned, wrapping). Backend indices, ports and file
  descriptors are small numbers that are only copied and compared; they are \<open>int\<close>, with
  \<open>-1\<close> the "none" of the source.

  A subscript outside a \<^verbatim>\<open>std::vector\<close> and a signed overflow are undefined behaviour in
  C++: the model returns \<open>None\<close> there, so that a result \<open>Some\<close> is a run of the code
  with defined behaviour.
\<close>

datatype LBAlgorithm = ROUND_ROBIN | LEAST_CONNECTIONS | IP_HASH

type_synonym c_int = "32 word"
type_synonym size_t = "64 word"

definition INT_MAX :: c_int where
  "INT_MAX = 0x7FFFFFFF"

definition INT_MIN :: c_int where
  "INT_MIN = 0x80000000"

record BackendManager =
  backend_servers :: "(string \<times> int) list"
  backend_health :: "bool list"
  request_count :: "c_int list"
  active_connections :: "c_int list"

text \<open>The constructor: three compiled-in backends, all healthy, all counters zero.\<close>

definition BackendManager_init :: BackendManager where
  "BackendManager_init =
     (let servers = [(''127.0.0.1'', 9001), (''127.0.0.1'', 9002), (''127.0.0.1'', 9003)];
          n = length servers
      in \<lparr>backend_servers = servers,
          backend_health = replicate n True,
          request_count = replicate n 0,
          active_connections = replicate n 0\<rparr>)"

text \<open>
  The four vectors are resized to the same length by the constructor and never resized
  again; \<open>sized\<close> states that.
\<close>

definition sized :: "BackendManager \<Rightarrow> bool" where
  "sized m \<longleftrightarrow>
     length (backend_health m) = length (backend_servers m) \<and>
     length (request_count m) = length (backend_servers m) \<and>
     length (active_connections m) = length (backend_servers m)"

text \<open>\<^verbatim>\<open>v[i]\<close> with an \<^verbatim>\<open>int\<close> subscript: defined only inside the vector.\<close>

definition vec_at :: "'a list \<Rightarrow> int \<Rightarrow> 'a option" where
  "vec_at xs i = (if 0 \<le> i \<and> nat i < length xs then Some (xs ! nat i) else None)"

text \<open>\<^verbatim>\<open>x++\<close> and \<^verbatim>\<open>x--\<close> on an \<^verbatim>\<open>int\<close>.\<close>

definition incr :: "c_int \<Rightarrow> c_int option" where
  "incr x = (if x = INT_MAX then None else Some (x + 1))"

definition decr :: "c_int \<Rightarrow> c_int option" where
  "decr x = (if x = INT_MIN then None else Some (x - 1))"

subsection \<open>BackendManager\<close>

definition get_healthy_indices :: "BackendManager \<Rightarrow> int list" where
  "get_healthy_indices m =
     map int (filter (\<lambda>i. backend_health m ! i) [0 ..< length (backend_health m)])"

definition set_health :: "BackendManager \<Rightarrow> int \<Rightarrow> bool \<Rightarrow> BackendManager option" where
  "set_health m index healthy =
     (case vec_at (backend_health m) index of
        None \<Rightarrow> None
      | Some _ \<Rightarrow> Some (m\<lparr>backend_health := (backend_health m)[nat index := healthy]\<rparr>))"

definition increment_requests :: "BackendManager \<Rightarrow> int \<Rightarrow> BackendManager option" where
  "increment_requests m index =
     (case vec_at (request_count m) index of
        None \<Rightarrow> None
      | Some v \<Rightarrow>
          (case incr v of
             None \<Rightarrow> None
           | Some v' \<Rightarrow> Some (m\<lparr>request_count := (request_count m)[nat index := v']\<rparr>)))"

definition increment_active :: "BackendManager \<Rightarrow> int \<Rightarrow> BackendManager option" where
  "increment_active m index =
     (case vec_at (active_connections m) index of
        None \<Rightarrow> None
      | Some v \<Rightarrow>
          (case incr v of
             None \<Rightarrow> None
           | Some v' \<Rightarrow> Some (m\<lparr>active_connections := (active_connections m)[nat index := v']\<rparr>)))"

definition decrement_active :: "BackendManager \<Rightarrow> int \<Rightarrow> BackendManager option" where
  "decrement_active m index =
     (case vec_at (active_connections m) index of
        None \<Rightarrow> None
      | Some v \<Rightarrow>
          (case decr v of
             None \<Rightarrow> None
           | Some v' \<Rightarrow> Some (m\<lparr>active_connections := (active_connections m)[nat index := v']\<rparr>)))"

text \<open>
  The loop of \<^verbatim>\<open>get_least_connection_backend\<close>, with its two locals
  \<^verbatim>\<open>min_conn\<close> and \<^verbatim>\<open>selected\<close> as the accumulator.
\<close>

fun least_loop :: "c_int list \<Rightarrow> int list \<Rightarrow> c_int \<Rightarrow> int \<Rightarrow> int option" where
  "least_loop ac [] min_conn selected = Some selected"
| "least_loop ac (idx # rest) min_conn selected =
     (case vec_at ac idx of
        None \<Rightarrow> None
      | Some a \<Rightarrow>
          if sint a < sint min_conn then least_loop ac rest a idx
          else least_loop ac rest min_conn selected)"

definition get_least_connection_backend :: "BackendManager \<Rightarrow> int list \<Rightarrow> int option" where
  "get_least_connection_backend m healthy =
     least_loop (active_connections m) healthy INT_MAX (- 1)"

subsection \<open>LoadBalancer\<close>

record LoadBalancer =
  algorithm :: LBAlgorithm
  rr_index :: size_t

record world =
  manager :: BackendManager
  balancer :: LoadBalancer

definition LoadBalancer_init :: "LBAlgorithm \<Rightarrow> LoadBalancer" where
  "LoadBalancer_init algo = \<lparr>algorithm = algo, rr_index = 0\<rparr>"

definition world_init :: "LBAlgorithm \<Rightarrow> world" where
  "world_init algo = \<lparr>manager = BackendManager_init, balancer = LoadBalancer_init algo\<rparr>"

text \<open>
  \<^verbatim>\<open>std::hash<std::string>\<close> belongs to the standard library, not to this repository: it
  is the parameter \<open>hasher\<close>, a function from strings to \<^verbatim>\<open>size_t\<close>.
\<close>

definition select_backend :: "(string \<Rightarrow> size_t) \<Rightarrow> string \<Rightarrow> world \<Rightarrow> (int \<times> world) option" where
  "select_backend hasher client_ip w =
     (let healthy = get_healthy_indices (manager w) in
      if healthy = [] then Some (- 1, w)
      else
        (case algorithm (balancer w) of
           ROUND_ROBIN \<Rightarrow>
             (let index = healthy ! (unat (rr_index (balancer w)) mod length healthy)
              in Some (index, w\<lparr>balancer := (balancer w)\<lparr>rr_index := rr_index (balancer w) + 1\<rparr>\<rparr>))
         | LEAST_CONNECTIONS \<Rightarrow>
             (case get_least_connection_backend (manager w) healthy of
                None \<Rightarrow> None
              | Some selected \<Rightarrow> Some (selected, w))
         | IP_HASH \<Rightarrow>
             Some (healthy ! (unat (hasher client_ip) mod length healthy), w)))"

subsection \<open>Sockets\<close>

text \<open>
  The network is an input of the model. A \<open>sock_env\<close> says how one connected socket
  behaves during one run: \<open>send_rets\<close> are the results of the successive \<^verbatim>\<open>::send\<close>
  calls on it (a list that has run out answers \<open>-1\<close>, an error or a timeout), and
  \<open>recv_ret\<close> is what the one \<^verbatim>\<open>::recv\<close> on it finds: \<open>None\<close> for an error or a
  timeout (\<open>-1\<close>), \<open>Some bs\<close> for the bytes that have arrived (\<open>Some []\<close> is the
  peer's orderly shutdown, \<open>0\<close>). A \<open>conn_env\<close> adds the results of \<^verbatim>\<open>::socket\<close>
  and \<^verbatim>\<open>::connect\<close> for a connection the program opens itself. \<^verbatim>\<open>set_timeouts\<close> only
  bounds how long these calls block and has no other effect here.

  The runs of the model are those in which every system call returns. The source sends
  with flags 0 and installs no signal handler, so a \<^verbatim>\<open>::send\<close> on a connection the peer
  has reset can raise \<^verbatim>\<open>SIGPIPE\<close> and end the process; such a call has no answer in
  \<open>send_rets\<close>.
\<close>

record sock_env =
  send_rets :: "int list"
  recv_ret :: "string option"

record conn_env =
  socket_ret :: int
  connect_ret :: int
  peer :: sock_env

text \<open>\<^verbatim>\<open>::send(fd, buf, len)\<close> accepts at most \<open>len\<close> bytes.\<close>

definition sys_send :: "nat \<Rightarrow> int \<Rightarrow> int" where
  "sys_send len r = (if r \<le> 0 then r else min r (int len))"

text \<open>\<^verbatim>\<open>::recv(fd, buf, cap)\<close>: the count returned and the bytes stored.\<close>

definition sys_recv :: "nat \<Rightarrow> string option \<Rightarrow> int \<times> string" where
  "sys_recv cap r =
     (case r of
        None \<Rightarrow> (- 1, [])
      | Some bs \<Rightarrow> (int (length (take cap bs)), take cap bs))"

text \<open>
  The loop of \<^verbatim>\<open>send_all\<close> (the same function in \<^verbatim>\<open>HealthChecker\<close> and in
  \<^verbatim>\<open>ClientHandler\<close>); beside the result it returns \<^verbatim>\<open>sent\<close>, the number of bytes the
  socket took.
\<close>

fun send_loop :: "nat \<Rightarrow> nat \<Rightarrow> int list \<Rightarrow> bool \<times> nat" where
  "send_loop len sent [] = (\<not> sent < len, sent)"
| "send_loop len sent (r # rs) =
     (if sent < len then
        (let n = sys_send (len - sent) r in
         if n \<le> 0 then (False, sent) else send_loop len (sent + nat n) rs)
      else (True, sent))"

definition send_all :: "string \<Rightarrow> int list \<Rightarrow> bool \<times> nat" where
  "send_all buf rets = send_loop (length buf) 0 rets"

text \<open>What a run does, in program order: system calls and calls into the registry.\<close>

datatype event =
    Socket int
  | Connect int string int int
  | SendAll int string nat
  | Recv int int
  | Close int
  | IncrementActive int
  | DecrementActive int
  | IncrementRequests int

definition crlf :: string where
  "crlf = [CHR 0x0D, CHR 0x0A]"

subsection \<open>HealthChecker\<close>

text \<open>\<^verbatim>\<open>std::string::find\<close>: the first position of the pattern, \<open>None\<close> for \<^verbatim>\<open>npos\<close>.\<close>

fun find_from :: "string \<Rightarrow> string \<Rightarrow> nat \<Rightarrow> nat option" where
  "find_from [] pat pos = (if pat = [] then Some pos else None)"
| "find_from (c # cs) pat pos =
     (if prefix pat (c # cs) then Some pos else find_from cs pat (Suc pos))"

definition str_find :: "string \<Rightarrow> string \<Rightarrow> nat option" where
  "str_find s pat = find_from s pat 0"

definition read_some :: "string option \<Rightarrow> string \<Rightarrow> bool \<times> string" where
  "read_some r out =
     (case sys_recv 1024 r of (n, buf) \<Rightarrow>
        if n \<le> 0 then (False, out) else (True, out @ buf))"

definition health_request :: "string \<Rightarrow> string" where
  "health_request ip =
     ''GET /health HTTP/1.1'' @ crlf @ ''Host: '' @ ip @ crlf @ ''Connection: close'' @ crlf @ crlf"

text \<open>
  The body of the \<^verbatim>\<open>for\<close> loop of the worker, up to the flag it hands to
  \<^verbatim>\<open>set_health\<close>: \<open>False\<close> when \<^verbatim>\<open>::socket\<close> fails, \<^verbatim>\<open>alive\<close> otherwise.
\<close>

definition probe :: "string \<Rightarrow> conn_env \<Rightarrow> bool" where
  "probe ip env =
     (if socket_ret env = - 1 then False
      else if connect_ret env \<noteq> - 1 then
        (let req = health_request ip in
         if fst (send_all req (send_rets (peer env))) then
           (case read_some (recv_ret (peer env)) [] of (ok, resp) \<Rightarrow>
              if ok then
                (if str_find resp ''HTTP/1.1 200'' \<noteq> None \<or> str_find resp ''HTTP/1.0 200'' \<noteq> None
                 then True else False)
              else False)
         else False)
      else False)"

text \<open>
  One cycle of the worker: the \<^verbatim>\<open>for\<close> loop over the backends. \<open>env i\<close> is the network
  met by the probe of backend \<open>i\<close>.
\<close>

fun probe_loop :: "(nat \<Rightarrow> conn_env) \<Rightarrow> nat list \<Rightarrow> BackendManager \<Rightarrow> BackendManager option" where
  "probe_loop env [] m = Some m"
| "probe_loop env (i # rest) m =
     (case set_health m (int i) (probe (fst (backend_servers m ! i)) (env i)) of
        None \<Rightarrow> None
      | Some m' \<Rightarrow> probe_loop env rest m')"

definition probe_cycle :: "(nat \<Rightarrow> conn_env) \<Rightarrow> BackendManager \<Rightarrow> BackendManager option" where
  "probe_cycle env m = probe_loop env [0 ..< length (backend_servers m)] m"

subsection \<open>ClientHandler\<close>

definition create_connection :: "string \<Rightarrow> int \<Rightarrow> conn_env \<Rightarrow> int \<times> event list" where
  "create_connection ip port env =
     (let fd = socket_ret env in
      if fd = - 1 then (- 1, [Socket fd])
      else if connect_ret env = - 1 then
        (- 1, [Socket fd, Connect fd ip port (connect_ret env), Close fd])
      else (fd, [Socket fd, Connect fd ip port (connect_ret env)]))"

text \<open>
  \<^verbatim>\<open>forward_once\<close>: one \<^verbatim>\<open>::recv\<close> of at most 8192 bytes from the source, then
  \<^verbatim>\<open>send_all\<close> of these bytes to the destination. The result is the returned flag with the
  reference parameter \<^verbatim>\<open>any_bytes\<close>, and the events.
\<close>

definition forward_once ::
  "int \<Rightarrow> sock_env \<Rightarrow> int \<Rightarrow> sock_env \<Rightarrow> bool \<Rightarrow> (bool \<times> bool) \<times> event list" where
  "forward_once src_fd src dst_fd dst any_bytes =
     (case sys_recv 8192 (recv_ret src) of (n, buffer) \<Rightarrow>
        if n \<le> 0 then ((False, any_bytes), [Recv src_fd n])
        else
          (case send_all buffer (send_rets dst) of (ok, sent) \<Rightarrow>
             ((ok, True), [Recv src_fd n, SendAll dst_fd buffer sent])))"

definition msg_unavailable :: string where
  "msg_unavailable =
     ''HTTP/1.1 503 Service Unavailable'' @ crlf @ ''Content-Length: 0'' @ crlf @
     ''Connection: close'' @ crlf @ crlf"

definition msg_connect_failed :: string where
  "msg_connect_failed =
     ''HTTP/1.1 503 Backend Connection Failed'' @ crlf @ ''Content-Length: 0'' @ crlf @
     ''Connection: close'' @ crlf @ crlf"

text \<open>
  A run of \<^verbatim>\<open>handle\<close> gives the state it leaves, its events, and the registry after each
  of its writes to it (\<open>snapshots\<close>, in order).
\<close>

record run =
  final :: world
  events :: "event list"
  snapshots :: "BackendManager list"

definition handle ::
  "(string \<Rightarrow> size_t) \<Rightarrow> int \<Rightarrow> string \<Rightarrow> sock_env \<Rightarrow> conn_env \<Rightarrow> world \<Rightarrow> run option" where
  "handle hasher client_fd client_ip cenv benv w =
     (case select_backend hasher client_ip w of
        None \<Rightarrow> None
      | Some (backend_index, w1) \<Rightarrow>
          if backend_index = - 1 then
            Some \<lparr>final = w1,
                  events = [SendAll client_fd msg_unavailable
                              (snd (send_all msg_unavailable (send_rets cenv))),
                            Close client_fd],
                  snapshots = []\<rparr>
          else
            (case vec_at (backend_servers (manager w1)) backend_index of
               None \<Rightarrow> None
             | Some (ip, port) \<Rightarrow>
                 (case create_connection ip port benv of (backend_fd, ev_conn) \<Rightarrow>
                    if backend_fd = - 1 then
                      Some \<lparr>final = w1,
                            events = ev_conn @
                              [SendAll client_fd msg_connect_failed
                                 (snd (send_all msg_connect_failed (send_rets cenv))),
                               Close client_fd],
                            snapshots = []\<rparr>
                    else
                      (case increment_active (manager w1) backend_index of
                         None \<Rightarrow> None
                       | Some m1 \<Rightarrow>
                           (case forward_once client_fd cenv backend_fd (peer benv) False of
                              ((ok_req, got_req), ev_req) \<Rightarrow>
                                if \<not> ok_req then
                                  (case decrement_active m1 backend_index of
                                     None \<Rightarrow> None
                                   | Some m2 \<Rightarrow>
                                       Some \<lparr>final = w1\<lparr>manager := m2\<rparr>,
                                             events = ev_conn @ [IncrementActive backend_index] @
                                               ev_req @
                                               [Close backend_fd, Close client_fd,
                                                DecrementActive backend_index],
                                             snapshots = [m1, m2]\<rparr>)
                                else
                                  (case forward_once backend_fd (peer benv) client_fd cenv False of
                                     ((ok_resp, got_resp), ev_resp) \<Rightarrow>
                                       (case increment_requests m1 backend_index of
                                          None \<Rightarrow> None
                                        | Some m2 \<Rightarrow>
                                            (case decrement_active m2 backend_index of
                                               None \<Rightarrow> None
                                             | Some m3 \<Rightarrow>
                                                 Some \<lparr>final = w1\<lparr>manager := m3\<rparr>,
                                                       events = ev_conn @
                                                         [IncrementActive backend_index] @
                                                         ev_req @ ev_resp @
                                                         [IncrementRequests backend_index,
                                                          DecrementActive backend_index,
                                                          Close backend_fd, Close client_fd],
                                                       snapshots = [m1, m2, m3]\<rparr>))))))))"

subsection \<open>Runs of several selections, sample inputs\<close>

text \<open>
  \<open>select_n\<close> is a sequence of consecutive calls of \<^verbatim>\<open>select_backend\<close>, one per
  client address, each on the state the previous one left; it returns the indices chosen,
  in order.
\<close>

fun select_n :: "(string \<Rightarrow> size_t) \<Rightarrow> string list \<Rightarrow> world \<Rightarrow> (int list \<times> world) option" where
  "select_n hasher [] w = Some ([], w)"
| "select_n hasher (ip # ips) w =
     (case select_backend hasher ip w of
        None \<Rightarrow> None
      | Some (r, w1) \<Rightarrow>
          (case select_n hasher ips w1 of
             None \<Rightarrow> None
           | Some (rs, w2) \<Rightarrow> Some (r # rs, w2)))"

text \<open>A stand-in for \<^verbatim>\<open>std::hash<std::string>\<close> in the concrete runs below.\<close>

definition sample_hasher :: "string \<Rightarrow> size_t" where
  "sample_hasher s = of_nat (length s)"

text \<open>The round-robin balancer with its cursor at \<^verbatim>\<open>SIZE_MAX\<close>.\<close>

definition w_wrap :: world where
  "w_wrap = \<lparr>manager = BackendManager_init,
             balancer = \<lparr>algorithm = ROUND_ROBIN, rr_index = 0xFFFFFFFFFFFFFFFF\<rparr>\<rparr>"

text \<open>
  A registry in use (backend 0 marked unhealthy, non-zero counters) under an IP-hash
  balancer, and a round-robin balancer over a registry with every backend unhealthy.
\<close>

definition w_busy :: world where
  "w_busy = \<lparr>manager = BackendManager_init\<lparr>backend_health := [False, True, True],
                                         request_count := [7, 8, 9],
                                         active_connections := [5, 0, 2]\<rparr>,
             balancer = \<lparr>algorithm = IP_HASH, rr_index = 41\<rparr>\<rparr>"

definition w_down :: world where
  "w_down = \<lparr>manager = BackendManager_init\<lparr>backend_health := [False, False, False]\<rparr>,
             balancer = \<lparr>algorithm = ROUND_ROBIN, rr_index = 0\<rparr>\<rparr>"

subsection \<open>Sending, in the words of the specification\<close>

text \<open>
  A buffer of \<open>len\<close> bytes is fully sent on a socket whose successive \<^verbatim>\<open>::send\<close> calls
  answer \<open>rets\<close> when some first answers are all positive and add up to at least \<open>len\<close>:
  the socket took every byte before it reported an error, a timeout or \<open>0\<close>. This is
  stated on the answers of the socket alone; it is compared with \<open>send_all\<close>, which
  follows the source.
\<close>

definition fully_sent :: "nat \<Rightarrow> int list \<Rightarrow> bool" where
  "fully_sent len rets \<longleftrightarrow>
     (\<exists>k\<le>length rets. (\<forall>i<k. 0 < rets ! i) \<and> int len \<le> sum_list (take k rets))"

subsection \<open>The probe, in the words of the specification\<close>





subsection \<open>Outcomes of a connection, in the words of the specification\<close>

text \<open>
  The backend connection was opened: \<^verbatim>\<open>::socket\<close> and \<^verbatim>\<open>::connect\<close> both succeeded.
\<close>

definition connected :: "conn_env \<Rightarrow> bool" where
  "connected env \<longleftrightarrow> socket_ret env \<noteq> - 1 \<and> connect_ret env \<noteq> - 1"

text \<open>
  The request leg succeeded: the client's bytes were read (one read of at most 8192 bytes
  that returned something) and fully sent to the backend, as the answers of the backend
  socket tell. It is compared with the flag that \<open>forward_once\<close>, which follows the
  source, returns.
\<close>

definition request_leg_ok :: "sock_env \<Rightarrow> conn_env \<Rightarrow> bool" where
  "request_leg_ok cenv benv \<longleftrightarrow>
     (case recv_ret cenv of
        None \<Rightarrow> False
      | Some bs \<Rightarrow> bs \<noteq> [] \<and>
          fully_sent (length (take 8192 bs)) (send_rets (peer benv)))"

text \<open>
  Sample peers: a client that sends a request line and takes what it is sent; a backend
  that refuses the connection; one that accepts the request and closes without an answer;
  one that answers.
\<close>

definition sample_client :: sock_env where
  "sample_client = \<lparr>send_rets = [200], recv_ret = Some ''GET / HTTP/1.1''\<rparr>"

definition refused_backend :: conn_env where
  "refused_backend = \<lparr>socket_ret = 5, connect_ret = - 1, peer = \<lparr>send_rets = [], recv_ret = None\<rparr>\<rparr>"

definition silent_backend :: conn_env where
  "silent_backend = \<lparr>socket_ret = 5, connect_ret = 0, peer = \<lparr>send_rets = [200], recv_ret = Some []\<rparr>\<rparr>"

definition sample_backend :: conn_env where
  "sample_backend = \<lparr>socket_ret = 5, connect_ret = 0,
                      peer = \<lparr>send_rets = [200], recv_ret = Some ''HTTP/1.1 200 OK''\<rparr>\<rparr>"

subsection \<open>Runs of several connections\<close>

text \<open>
  \<open>serve_n n\<close> is \<open>n\<close> connections handled one after the other, each by a run of
  \<^verbatim>\<open>handle\<close> on the state the previous one left, all meeting the same client and
  backend behaviour.
\<close>

fun serve_n ::
  "nat \<Rightarrow> (string \<Rightarrow> size_t) \<Rightarrow> int \<Rightarrow> string \<Rightarrow> sock_env \<Rightarrow> conn_env \<Rightarrow> world \<Rightarrow> world option" where
  "serve_n 0 hasher fd ip cenv benv w = Some w"
| "serve_n (Suc n) hasher fd ip cenv benv w =
     (case handle hasher fd ip cenv benv w of
        None \<Rightarrow> None
      | Some run \<Rightarrow> serve_n n hasher fd ip cenv benv (final run))"

text \<open>
  The least-connections balancer over the constructor's registry, with \<open>c\<close> requests
  counted for backend 0.
\<close>

definition w_served :: "c_int \<Rightarrow> world" where
  "w_served c =
     \<lparr>manager =
        \<lparr>backend_servers = [(''127.0.0.1'', 9001), (''127.0.0.1'', 9002), (''127.0.0.1'', 9003)],
         backend_health = [True, True, True],
         request_count = [c, 0, 0],
         active_connections = [0, 0, 0]\<rparr>,
      balancer = \<lparr>algorithm = LEAST_CONNECTIONS, rr_index = 0\<rparr>\<rparr>"

text \<open>
  The states of the program between connections, when connections are handled one after
  the other: the state at start-up, and the state a run of the handler or a probe cycle
  leaves from such a state.
\<close>

inductive reachable :: "(string \<Rightarrow> size_t) \<Rightarrow> world \<Rightarrow> bool" for hasher where
  started: "reachable hasher (world_init algo)"
| served: "reachable hasher w \<Longrightarrow> handle hasher fd ip cenv benv w = Some run \<Longrightarrow>
           reachable hasher (final run)"
| probed: "reachable hasher w \<Longrightarrow> probe_cycle env (manager w) = Some m \<Longrightarrow>
           reachable hasher (w\<lparr>manager := m\<rparr>)"

section \<open>Arithmetic of the counters\<close>

lemma sint_le_INT_MAX: "sint (x :: c_int) \<le> sint INT_MAX"
  using sint_lt [of x] by (simp add: INT_MAX_def)

lemma sint_less_INT_MAX_iff: "sint (x :: c_int) < sint INT_MAX \<longleftrightarrow> x \<noteq> INT_MAX"
  using sint_le_INT_MAX [of x] by (auto simp: order_less_le signed_word_eqI)

section \<open>Least-connections search\<close>

text \<open>
  While no candidate is below the running minimum, the loop keeps \<^verbatim>\<open>selected\<close>.
\<close>

lemma least_loop_keep:
  "\<forall>idx\<in>set hs. 0 \<le> idx \<and> nat idx < length ac \<Longrightarrow>
   \<forall>idx\<in>set hs. sint mc \<le> sint (ac ! nat idx) \<Longrightarrow>
   least_loop ac hs mc sel = Some sel"
  by (induction hs) (auto simp: vec_at_def)

text \<open>
  As soon as some candidate is below the running minimum, the loop ends on the first
  position that holds the least count.
\<close>

lemma least_loop_first_min:
  assumes "\<forall>idx\<in>set hs. 0 \<le> idx \<and> nat idx < length ac"
    and "\<exists>idx\<in>set hs. sint (ac ! nat idx) < sint mc"
  shows "\<exists>k<length hs. least_loop ac hs mc sel = Some (hs ! k) \<and>
            sint (ac ! nat (hs ! k)) < sint mc \<and>
            (\<forall>j<length hs. sint (ac ! nat (hs ! k)) \<le> sint (ac ! nat (hs ! j))) \<and>
            (\<forall>j<k. sint (ac ! nat (hs ! k)) < sint (ac ! nat (hs ! j)))"
  using assms
proof (induction hs arbitrary: mc sel)
  case Nil
  then show ?case by simp
next
  case (Cons idx rest)
  let ?a = "ac ! nat idx"
  have inr: "\<forall>i\<in>set rest. 0 \<le> i \<and> nat i < length ac" using Cons.prems by simp
  have at: "vec_at ac idx = Some ?a" using Cons.prems by (simp add: vec_at_def)
  show ?case
  proof (cases "sint ?a < sint mc")
    case True
    then have step: "least_loop ac (idx # rest) mc sel = least_loop ac rest ?a idx"
      using at by simp
    show ?thesis
    proof (cases "\<forall>i\<in>set rest. sint ?a \<le> sint (ac ! nat i)")
      case all: True
      have "least_loop ac rest ?a idx = Some idx"
        by (rule least_loop_keep [OF inr all])
      with step have res: "least_loop ac (idx # rest) mc sel = Some ((idx # rest) ! 0)" by simp
      have min: "\<forall>j<length (idx # rest). sint ?a \<le> sint (ac ! nat ((idx # rest) ! j))"
        using all by (simp add: All_less_Suc2)
      show ?thesis
        by (rule exI [of _ 0]) (use res True min in simp)
    next
      case False
      then have ex: "\<exists>i\<in>set rest. sint (ac ! nat i) < sint ?a" by (simp add: not_le)
      from Cons.IH [OF inr ex, of idx] obtain k where k: "k < length rest"
        "least_loop ac rest ?a idx = Some (rest ! k)"
        "sint (ac ! nat (rest ! k)) < sint ?a"
        "\<forall>j<length rest. sint (ac ! nat (rest ! k)) \<le> sint (ac ! nat (rest ! j))"
        "\<forall>j<k. sint (ac ! nat (rest ! k)) < sint (ac ! nat (rest ! j))" by blast
      show ?thesis
        by (rule exI [of _ "Suc k"]) (use k step True in \<open>simp add: All_less_Suc2\<close>)
    qed
  next
    case False
    then have step: "least_loop ac (idx # rest) mc sel = least_loop ac rest mc sel"
      using at by simp
    from False Cons.prems(2) have ex: "\<exists>i\<in>set rest. sint (ac ! nat i) < sint mc" by auto
    from Cons.IH [OF inr ex, of sel] obtain k where k: "k < length rest"
      "least_loop ac rest mc sel = Some (rest ! k)"
      "sint (ac ! nat (rest ! k)) < sint mc"
      "\<forall>j<length rest. sint (ac ! nat (rest ! k)) \<le> sint (ac ! nat (rest ! j))"
      "\<forall>j<k. sint (ac ! nat (rest ! k)) < sint (ac ! nat (rest ! j))" by blast
    show ?thesis
      by (rule exI [of _ "Suc k"]) (use k step False in \<open>simp add: All_less_Suc2\<close>)
  qed
qed

section \<open>Selection\<close>

lemma healthy_indices_distinct: "distinct (get_healthy_indices m)"
  by (simp add: get_healthy_indices_def distinct_map inj_on_def)

lemma healthy_indices_range:
  "r \<in> set (get_healthy_indices m) \<Longrightarrow> 0 \<le> r \<and> nat r < length (backend_health m)"
  by (auto simp: get_healthy_indices_def)

lemma healthy_indices_flag:
  "r \<in> set (get_healthy_indices m) \<Longrightarrow> backend_health m ! nat r"
  by (auto simp: get_healthy_indices_def)

lemma select_backend_round_robin:
  assumes "algorithm (balancer w) = ROUND_ROBIN" "get_healthy_indices (manager w) \<noteq> []"
  shows "select_backend hasher ip w =
    Some (get_healthy_indices (manager w) ! (unat (rr_index (balancer w)) mod length (get_healthy_indices (manager w))),
          w\<lparr>balancer := (balancer w)\<lparr>rr_index := rr_index (balancer w) + 1\<rparr>\<rparr>)"
  using assms by (simp add: select_backend_def Let_def)

lemma select_n_round_robin:
  assumes "algorithm (balancer w) = ROUND_ROBIN" "get_healthy_indices (manager w) \<noteq> []"
  shows "select_n hasher ips w =
    Some (map (\<lambda>i. get_healthy_indices (manager w) !
                 (unat (rr_index (balancer w) + of_nat i) mod length (get_healthy_indices (manager w))))
            [0 ..< length ips],
          w\<lparr>balancer := (balancer w)\<lparr>rr_index := rr_index (balancer w) + of_nat (length ips)\<rparr>\<rparr>)"
  using assms
proof (induction ips arbitrary: w)
  case Nil
  then show ?case by simp
next
  case (Cons ip ips)
  let ?w1 = "w\<lparr>balancer := (balancer w)\<lparr>rr_index := rr_index (balancer w) + 1\<rparr>\<rparr>"
  have s: "select_backend hasher ip w = Some (get_healthy_indices (manager w) ! (unat (rr_index (balancer w)) mod length (get_healthy_indices (manager w))), ?w1)"
    by (rule select_backend_round_robin [OF Cons.prems])
  have a: "algorithm (balancer ?w1) = ROUND_ROBIN" "get_healthy_indices (manager ?w1) \<noteq> []"
    using Cons.prems by simp_all
  have up: "[0 ..< length (ip # ips)] = 0 # map Suc [0 ..< length ips]"
    by (simp add: upt_conv_Cons map_Suc_upt del: upt_Suc)
  show ?case
    unfolding select_n.simps s up using Cons.IH [OF a]
    by (simp add: o_def ac_simps del: upt_Suc)
qed

lemma healthy_init: "get_healthy_indices BackendManager_init = [0, 1, 2]"
  by (simp add: BackendManager_init_def get_healthy_indices_def upt_rec)

lemma sized_init: "sized BackendManager_init"
  by (simp add: sized_def BackendManager_init_def)

lemma unat_cursor_add:
  "unat (c :: size_t) + i < 2 ^ 64 \<Longrightarrow> unat (c + of_nat i) = unat c + i"
  by (simp add: unat_word_ariths unat_of_nat take_bit_nat_eq_self)

lemma unat_cursor_Suc: "unat ((c :: size_t) + 1) = (unat c + 1) mod 2 ^ 64"
  by (simp add: unat_word_ariths)

lemma mod_window_distinct:
  fixes a i j K :: nat
  assumes "i < j" "j < i + K"
  shows "(a + i) mod K \<noteq> (a + j) mod K"
proof
  assume "(a + i) mod K = (a + j) mod K"
  then have "(a + j) mod K = (a + i) mod K" by simp
  then have "K dvd (a + j) - (a + i)"
    using assms(1) by (simp add: mod_eq_dvd_iff_nat)
  then have "K dvd j - i" using assms(1) by simp
  moreover have "0 < j - i" "j - i < K" using assms by simp_all
  ultimately show False by (simp add: nat_dvd_not_less)
qed

lemma select_backend_frame:
  "select_backend hasher ip w = Some (r, w') \<Longrightarrow> manager w' = manager w \<and> algorithm (balancer w') = algorithm (balancer w)"
  by (auto simp: select_backend_def Let_def split: if_splits LBAlgorithm.splits option.splits)

lemma least_loop_result:
  "least_loop ac hs mc sel = Some r \<Longrightarrow> r = sel \<or> r \<in> set hs"
  by (induction hs arbitrary: mc sel) (auto split: option.splits if_splits)

lemma least_loop_defined:
  "\<forall>idx\<in>set hs. 0 \<le> idx \<and> nat idx < length ac \<Longrightarrow> \<exists>r. least_loop ac hs mc sel = Some r"
  by (induction hs arbitrary: mc sel) (auto simp: vec_at_def)

lemma select_backend_result:
  "select_backend hasher ip w = Some (r, w') \<Longrightarrow> r = - 1 \<or> r \<in> set (get_healthy_indices (manager w))"
  by (auto simp: select_backend_def Let_def get_least_connection_backend_def
      split: if_splits LBAlgorithm.splits option.splits dest: least_loop_result)

lemma select_backend_defined:
  assumes "sized (manager w)"
  shows "\<exists>r w'. select_backend hasher ip w = Some (r, w')"
proof -
  have "\<forall>idx\<in>set (get_healthy_indices (manager w)). 0 \<le> idx \<and> nat idx < length (active_connections (manager w))"
    using assms healthy_indices_range [of _ "manager w"] by (simp add: sized_def)
  from least_loop_defined [OF this, of INT_MAX "- 1"]
  obtain r where "get_least_connection_backend (manager w) (get_healthy_indices (manager w)) = Some r"
    unfolding get_least_connection_backend_def by blast
  then show ?thesis
    by (simp add: select_backend_def Let_def split: LBAlgorithm.splits)
qed

lemma init_fields:
  "backend_servers BackendManager_init = [(''127.0.0.1'', 9001), (''127.0.0.1'', 9002), (''127.0.0.1'', 9003)]"
  "backend_health BackendManager_init = [True, True, True]"
  "request_count BackendManager_init = [0, 0, 0]"
  "active_connections BackendManager_init = [0, 0, 0]"
  by (simp_all add: BackendManager_init_def numeral_3_eq_3)

lemma world_init_fields:
  "manager (world_init algo) = BackendManager_init"
  "algorithm (balancer (world_init algo)) = algo"
  "rr_index (balancer (world_init algo)) = 0"
  by (simp_all add: world_init_def LoadBalancer_init_def)

lemma healthy_busy: "get_healthy_indices (manager w_busy) = [1, 2]"
  by (simp add: w_busy_def get_healthy_indices_def upt_rec)

lemma select_busy: "select_backend sample_hasher ''10.0.0.1'' w_busy = Some (1, w_busy)"
proof -
  have "unat (sample_hasher ''10.0.0.1'') mod length [1, 2 :: int] = 0"
    by (simp add: sample_hasher_def flip: numeral_2_eq_2)
  then show ?thesis
    by (simp add: select_backend_def healthy_busy) (simp add: w_busy_def)
qed

text \<open>
  Claim C2, as stated, fails where the \<^verbatim>\<open>size_t\<close> cursor wraps around: \<open>2^64 - 1\<close>
  round-robin selections after start-up the cursor is \<^verbatim>\<open>SIZE_MAX\<close>, a multiple of 3,
  and with the three backends healthy the next two selections both return backend 0.
\<close>

theorem round_robin_wrap_counterexample:
  "map_option snd (select_n sample_hasher (replicate (2 ^ 64 - 1) ''10.0.0.1'') (world_init ROUND_ROBIN)) = Some w_wrap
   \<and> map_option fst (select_n sample_hasher [''10.0.0.1'', ''10.0.0.1''] w_wrap) = Some [0, 0]"
proof
  let ?w = "world_init ROUND_ROBIN"
  have a: "algorithm (balancer ?w) = ROUND_ROBIN" "get_healthy_indices (manager ?w) \<noteq> []"
    by (simp_all add: world_init_def LoadBalancer_init_def healthy_init)
  have c: "(of_nat (2 ^ 64 - 1) :: size_t) = 0xFFFFFFFFFFFFFFFF" by simp
  have w: "?w\<lparr>balancer := (balancer ?w)\<lparr>rr_index := rr_index (balancer ?w) + of_nat (length (replicate (2 ^ 64 - 1) ''10.0.0.1''))\<rparr>\<rparr> = w_wrap"
    unfolding length_replicate c by (simp add: world_init_def LoadBalancer_init_def w_wrap_def)
  show "map_option snd (select_n sample_hasher (replicate (2 ^ 64 - 1) ''10.0.0.1'') ?w) = Some w_wrap"
    unfolding select_n_round_robin [OF a] w by (simp only: option.map snd_conv)
next
  have a: "algorithm (balancer w_wrap) = ROUND_ROBIN" "get_healthy_indices (manager w_wrap) \<noteq> []"
    by (simp_all add: w_wrap_def healthy_init)
  show "map_option fst (select_n sample_hasher [''10.0.0.1'', ''10.0.0.1''] w_wrap) = Some [0, 0]"
    unfolding select_n_round_robin [OF a]
    by (simp add: w_wrap_def healthy_init upt_rec)
qed

text \<open>
  Claim C2, amended: in round-robin mode, \<open>N\<close> consecutive selections over a non-empty
  healthy snapshot of size \<open>K\<close> (which selection does not change), started with the cursor
  at \<open>c0\<close>, all return; after the first \<open>n\<close> of them the cursor is \<open>c0 + n\<close> in
  \<^verbatim>\<open>size_t\<close> arithmetic (every call advances it by exactly one, modulo \<open>2^64\<close>), and the
  \<open>i\<close>-th call returns \<open>healthy[((c0 + i) mod 2^64) mod K]\<close>. As long as the cursor does
  not wrap during the sequence (\<open>c0 + N \<le> 2^64\<close>), the \<open>i\<close>-th call returns
  \<open>healthy[(c0 + i) mod K]\<close> and no chosen index repeats within any window of \<open>K\<close>
  consecutive selections.
\<close>

theorem round_robin_cyclic:
  assumes "algorithm (balancer w) = ROUND_ROBIN"
    and "get_healthy_indices (manager w) \<noteq> []"
  shows "\<exists>rs w'. select_n hasher ips w = Some (rs, w') \<and>
           length rs = length ips \<and>
           manager w' = manager w \<and>
           (\<forall>n\<le>length ips. \<exists>rs1 w1. select_n hasher (take n ips) w = Some (rs1, w1) \<and>
               rr_index (balancer w1) = rr_index (balancer w) + of_nat n) \<and>
           (\<forall>i<length ips. rs ! i =
               get_healthy_indices (manager w) !
                 (unat (rr_index (balancer w) + of_nat i) mod length (get_healthy_indices (manager w)))) \<and>
           (unat (rr_index (balancer w)) + length ips \<le> 2 ^ 64 \<longrightarrow>
              (\<forall>i<length ips. rs ! i =
                 get_healthy_indices (manager w) !
                   ((unat (rr_index (balancer w)) + i) mod length (get_healthy_indices (manager w)))) \<and>
              (\<forall>i j. i < j \<and> j < length ips \<and> j < i + length (get_healthy_indices (manager w)) \<longrightarrow>
                 rs ! i \<noteq> rs ! j))"
proof -
  let ?h = "get_healthy_indices (manager w)"
  let ?c = "rr_index (balancer w)"
  let ?rs = "map (\<lambda>i. ?h ! (unat (?c + of_nat i) mod length ?h)) [0 ..< length ips]"
  let ?w' = "w\<lparr>balancer := (balancer w)\<lparr>rr_index := ?c + of_nat (length ips)\<rparr>\<rparr>"
  have run: "select_n hasher ips w = Some (?rs, ?w')"
    by (rule select_n_round_robin [OF assms])
  have K: "0 < length ?h" using assms(2) by simp
  have pre: "\<forall>n\<le>length ips. \<exists>rs1 w1. select_n hasher (take n ips) w = Some (rs1, w1) \<and>
               rr_index (balancer w1) = ?c + of_nat n"
  proof (intro allI impI)
    fix n assume "n \<le> length ips"
    then have "length (take n ips) = n" by simp
    with select_n_round_robin [OF assms, of hasher "take n ips"]
    show "\<exists>rs1 w1. select_n hasher (take n ips) w = Some (rs1, w1) \<and>
               rr_index (balancer w1) = ?c + of_nat n" by simp
  qed
  have nth: "\<forall>i<length ips. ?rs ! i = ?h ! (unat (?c + of_nat i) mod length ?h)"
    by simp
  have nowrap: "unat ?c + length ips \<le> 2 ^ 64 \<longrightarrow>
              (\<forall>i<length ips. ?rs ! i = ?h ! ((unat ?c + i) mod length ?h)) \<and>
              (\<forall>i j. i < j \<and> j < length ips \<and> j < i + length ?h \<longrightarrow> ?rs ! i \<noteq> ?rs ! j)"
  proof (intro impI)
    assume le: "unat ?c + length ips \<le> 2 ^ 64"
    have u: "unat (?c + of_nat i) = unat ?c + i" if "i < length ips" for i
      using that le by (intro unat_cursor_add) simp
    have p1: "\<forall>i<length ips. ?rs ! i = ?h ! ((unat ?c + i) mod length ?h)"
      using u by simp
    have p2: "\<forall>i j. i < j \<and> j < length ips \<and> j < i + length ?h \<longrightarrow> ?rs ! i \<noteq> ?rs ! j"
    proof (intro allI impI)
      fix i j assume ij: "i < j \<and> j < length ips \<and> j < i + length ?h"
      then have i: "i < length ips" and j: "j < length ips" by simp_all
      have ne: "(unat ?c + i) mod length ?h \<noteq> (unat ?c + j) mod length ?h"
        using ij by (intro mod_window_distinct) simp_all
      have "?h ! ((unat ?c + i) mod length ?h) \<noteq> ?h ! ((unat ?c + j) mod length ?h)"
        using ne K healthy_indices_distinct [of "manager w"]
        by (simp add: nth_eq_iff_index_eq)
      then show "?rs ! i \<noteq> ?rs ! j" using p1 i j by simp
    qed
    from p1 p2 show "(\<forall>i<length ips. ?rs ! i = ?h ! ((unat ?c + i) mod length ?h)) \<and>
              (\<forall>i j. i < j \<and> j < length ips \<and> j < i + length ?h \<longrightarrow> ?rs ! i \<noteq> ?rs ! j)" ..
  qed
  have len: "length ?rs = length ips" by simp
  have man: "manager ?w' = manager w" by simp
  show ?thesis
    apply (rule exI [of _ ?rs])
    apply (rule exI [of _ ?w'])
    apply (intro conjI)
         apply (rule run)
        apply (rule len)
       apply (rule man)
      apply (rule pre)
     apply (rule nth)
    apply (rule nowrap)
    done
qed

theorem round_robin_cyclic_witness:
  "algorithm (balancer (world_init ROUND_ROBIN)) = ROUND_ROBIN \<and>
   get_healthy_indices (manager (world_init ROUND_ROBIN)) \<noteq> [] \<and>
   unat (rr_index (balancer (world_init ROUND_ROBIN))) + length [''a'', ''b'', ''c'', ''d''] \<le> 2 ^ 64 \<and>
   (\<exists>rs w'. select_n sample_hasher [''a'', ''b'', ''c'', ''d''] (world_init ROUND_ROBIN) = Some (rs, w') \<and>
      length rs = 4 \<and> rs ! 0 = 0 \<and> rs ! 1 = 1 \<and> rs ! 2 = 2 \<and> rs ! 3 = 0 \<and> rs ! 0 \<noteq> rs ! 2)"
proof -
  let ?w = "world_init ROUND_ROBIN"
  let ?ips = "[''a'', ''b'', ''c'', ''d'']"
  have h: "get_healthy_indices (manager ?w) = [0, 1, 2]"
    by (simp add: world_init_def healthy_init)
  have c: "rr_index (balancer ?w) = 0"
    by (simp add: world_init_def LoadBalancer_init_def)
  have a: "algorithm (balancer ?w) = ROUND_ROBIN" "get_healthy_indices (manager ?w) \<noteq> []"
    by (simp_all add: h) (simp add: world_init_def LoadBalancer_init_def)
  have le: "unat (rr_index (balancer ?w)) + length ?ips \<le> 2 ^ 64"
    by (simp add: c)
  from round_robin_cyclic [OF a, of sample_hasher ?ips] obtain rs w' where
    run: "select_n sample_hasher ?ips ?w = Some (rs, w')" and len: "length rs = length ?ips"
    and cyc: "unat (rr_index (balancer ?w)) + length ?ips \<le> 2 ^ 64 \<longrightarrow>
       (\<forall>i<length ?ips. rs ! i = get_healthy_indices (manager ?w) !
            ((unat (rr_index (balancer ?w)) + i) mod length (get_healthy_indices (manager ?w)))) \<and>
       (\<forall>i j. i < j \<and> j < length ?ips \<and> j < i + length (get_healthy_indices (manager ?w)) \<longrightarrow>
            rs ! i \<noteq> rs ! j)"
    by blast
  from cyc le have nth: "\<forall>i<length ?ips. rs ! i = get_healthy_indices (manager ?w) !
            ((unat (rr_index (balancer ?w)) + i) mod length (get_healthy_indices (manager ?w)))"
    and win: "\<forall>i j. i < j \<and> j < length ?ips \<and> j < i + length (get_healthy_indices (manager ?w)) \<longrightarrow>
            rs ! i \<noteq> rs ! j"
    by blast+
  have "rs ! 0 = 0" "rs ! 1 = 1" "rs ! 2 = 2" "rs ! 3 = 0"
    using nth by (simp_all add: h c)
  moreover have "rs ! 0 \<noteq> rs ! 2" using win [rule_format, of 0 2] by (simp add: h)
  ultimately show ?thesis using a le run len by simp
qed

text \<open>
  Claim C7, as stated, fails. The cursor is advanced only inside the round-robin branch
  of \<^verbatim>\<open>select_backend\<close>: a selection in least-connections mode, one in IP-hash mode
  and one that finds no healthy backend return the state they were given, cursor
  included. And the cursor is a \<^verbatim>\<open>size_t\<close>: advanced at \<^verbatim>\<open>SIZE_MAX\<close> it becomes 0.
\<close>

theorem cursor_not_advanced_counterexample:
  "select_backend sample_hasher ''10.0.0.1'' (world_init LEAST_CONNECTIONS)
     = Some (0, world_init LEAST_CONNECTIONS)
   \<and> select_backend sample_hasher ''10.0.0.1'' w_busy = Some (1, w_busy)
   \<and> select_backend sample_hasher ''10.0.0.1'' w_down = Some (- 1, w_down)
   \<and> map_option (rr_index \<circ> balancer \<circ> snd) (select_backend sample_hasher ''10.0.0.1'' w_wrap) = Some 0
   \<and> rr_index (balancer w_wrap) = 0xFFFFFFFFFFFFFFFF"
proof (intro conjI)
  show "select_backend sample_hasher ''10.0.0.1'' (world_init LEAST_CONNECTIONS)
     = Some (0, world_init LEAST_CONNECTIONS)"
    by (simp add: select_backend_def world_init_fields healthy_init init_fields
        get_least_connection_backend_def vec_at_def INT_MAX_def)
  show "select_backend sample_hasher ''10.0.0.1'' w_busy = Some (1, w_busy)"
    by (rule select_busy)
  show "select_backend sample_hasher ''10.0.0.1'' w_down = Some (- 1, w_down)"
    by (simp add: select_backend_def w_down_def get_healthy_indices_def upt_rec)
  show "map_option (rr_index \<circ> balancer \<circ> snd) (select_backend sample_hasher ''10.0.0.1'' w_wrap) = Some 0"
    by (simp add: select_backend_def w_wrap_def healthy_init)
  show "rr_index (balancer w_wrap) = 0xFFFFFFFFFFFFFFFF"
    by (simp add: w_wrap_def)
qed

text \<open>
  Claim C7, amended: the cursor is a single counter of the balancer that a selection
  advances by exactly one, modulo \<open>2^64\<close>, when the balancer is in round-robin mode and
  the healthy snapshot is not empty, whichever backend is chosen; every other selection
  (least-connections mode, IP-hash mode, no healthy backend) leaves it unchanged.
\<close>

theorem cursor_advance:
  "select_backend hasher ip w = Some (r, w') \<Longrightarrow>
   rr_index (balancer w') =
     (if algorithm (balancer w) = ROUND_ROBIN \<and> get_healthy_indices (manager w) \<noteq> []
      then rr_index (balancer w) + 1 else rr_index (balancer w)) \<and>
   unat (rr_index (balancer w) + 1) = (unat (rr_index (balancer w)) + 1) mod 2 ^ 64"
  by (auto simp: select_backend_def Let_def unat_cursor_Suc
      split: if_splits LBAlgorithm.splits option.splits)

theorem cursor_advance_witness:
  "select_backend sample_hasher ''10.0.0.1'' (world_init ROUND_ROBIN)
     = Some (0, (world_init ROUND_ROBIN)\<lparr>balancer := \<lparr>algorithm = ROUND_ROBIN, rr_index = 1\<rparr>\<rparr>)
   \<and> rr_index (balancer ((world_init ROUND_ROBIN)\<lparr>balancer := \<lparr>algorithm = ROUND_ROBIN, rr_index = 1\<rparr>\<rparr>))
       = rr_index (balancer (world_init ROUND_ROBIN)) + 1"
proof -
  let ?w = "world_init ROUND_ROBIN"
  let ?w' = "?w\<lparr>balancer := \<lparr>algorithm = ROUND_ROBIN, rr_index = 1\<rparr>\<rparr>"
  have run: "select_backend sample_hasher ''10.0.0.1'' ?w = Some (0, ?w')"
    by (simp add: select_backend_def world_init_def healthy_init LoadBalancer_init_def)
  have a: "algorithm (balancer ?w) = ROUND_ROBIN \<and> get_healthy_indices (manager ?w) \<noteq> []"
    by (simp add: world_init_def healthy_init LoadBalancer_init_def)
  from cursor_advance [OF run] a
  have "rr_index (balancer ?w') = rr_index (balancer ?w) + 1" by simp
  with run show ?thesis by simp
qed

text \<open>
  Claim C8: in IP-hash mode the index chosen is \<open>healthy[hash(address) mod |healthy|]\<close>,
  a function of the client's address and the healthy snapshot alone: two selections with
  the same address over the same non-empty snapshot return the same index, whatever the
  counters and the cursor are, and leave the state as it was.
\<close>

theorem ip_hash_deterministic:
  assumes "algorithm (balancer w1) = IP_HASH" and "algorithm (balancer w2) = IP_HASH"
    and "get_healthy_indices (manager w1) = get_healthy_indices (manager w2)"
    and "get_healthy_indices (manager w1) \<noteq> []"
  shows "select_backend hasher ip w1 =
           Some (get_healthy_indices (manager w1) !
                   (unat (hasher ip) mod length (get_healthy_indices (manager w1))), w1) \<and>
         select_backend hasher ip w2 =
           Some (get_healthy_indices (manager w1) !
                   (unat (hasher ip) mod length (get_healthy_indices (manager w1))), w2) \<and>
         map_option fst (select_backend hasher ip w1) = map_option fst (select_backend hasher ip w2)"
  using assms by (simp add: select_backend_def Let_def)

theorem ip_hash_deterministic_witness:
  "algorithm (balancer w_busy) = IP_HASH \<and>
   algorithm (balancer (w_busy\<lparr>manager := (manager w_busy)\<lparr>active_connections := [0, 9, 9]\<rparr>\<rparr>)) = IP_HASH \<and>
   get_healthy_indices (manager w_busy) = [1, 2] \<and>
   map_option fst (select_backend sample_hasher ''10.0.0.1'' w_busy) = Some 1 \<and>
   map_option fst (select_backend sample_hasher ''10.0.0.1''
      (w_busy\<lparr>manager := (manager w_busy)\<lparr>active_connections := [0, 9, 9]\<rparr>\<rparr>)) = Some 1"
proof -
  let ?w2 = "w_busy\<lparr>manager := (manager w_busy)\<lparr>active_connections := [0, 9, 9]\<rparr>\<rparr>"
  have h: "get_healthy_indices (manager w_busy) = [1, 2]"
    by (rule healthy_busy)
  have h2: "get_healthy_indices (manager w_busy) = get_healthy_indices (manager ?w2)"
    by (simp add: get_healthy_indices_def)
  have a: "algorithm (balancer w_busy) = IP_HASH" "algorithm (balancer ?w2) = IP_HASH"
    by (simp_all add: w_busy_def)
  have ne: "get_healthy_indices (manager w_busy) \<noteq> []" by (simp add: h)
  have "unat (sample_hasher ''10.0.0.1'') mod length [1, 2 :: int] = 0"
    by (simp add: sample_hasher_def flip: numeral_2_eq_2)
  with ip_hash_deterministic [OF a h2 ne, of sample_hasher "''10.0.0.1''"]
  show ?thesis using a h by simp
qed

text \<open>
  Claim C9: a selection that returns, in any mode, leaves every health flag, every
  active-connection count and every request count as it found them (and the backend list
  and the mode); only the cursor may differ.
\<close>

theorem select_backend_leaves_registry:
  "select_backend hasher ip w = Some (r, w') \<Longrightarrow>
   backend_health (manager w') = backend_health (manager w) \<and>
   active_connections (manager w') = active_connections (manager w) \<and>
   request_count (manager w') = request_count (manager w) \<and>
   backend_servers (manager w') = backend_servers (manager w) \<and>
   algorithm (balancer w') = algorithm (balancer w)"
  by (auto simp: select_backend_def Let_def split: if_splits LBAlgorithm.splits option.splits)

theorem select_backend_leaves_registry_witness:
  "select_backend sample_hasher ''10.0.0.1'' (world_init ROUND_ROBIN)
     = Some (0, (world_init ROUND_ROBIN)\<lparr>balancer := \<lparr>algorithm = ROUND_ROBIN, rr_index = 1\<rparr>\<rparr>)
   \<and> manager ((world_init ROUND_ROBIN)\<lparr>balancer := \<lparr>algorithm = ROUND_ROBIN, rr_index = 1\<rparr>\<rparr>)
       = manager (world_init ROUND_ROBIN)
   \<and> backend_health (manager ((world_init ROUND_ROBIN)\<lparr>balancer := \<lparr>algorithm = ROUND_ROBIN, rr_index = 1\<rparr>\<rparr>))
       = [True, True, True]"
proof -
  let ?w = "world_init ROUND_ROBIN"
  let ?w' = "?w\<lparr>balancer := \<lparr>algorithm = ROUND_ROBIN, rr_index = 1\<rparr>\<rparr>"
  have run: "select_backend sample_hasher ''10.0.0.1'' ?w = Some (0, ?w')"
    by (simp add: select_backend_def world_init_def healthy_init LoadBalancer_init_def)
  from select_backend_leaves_registry [OF run]
  have "backend_health (manager ?w') = backend_health (manager ?w)" by blast
  then have "backend_health (manager ?w') = [True, True, True]"
    by (simp add: world_init_fields init_fields)
  with run show ?thesis by simp
qed

text \<open>
  Claim C10: on a registry whose vectors have the length of the backend list, a selection
  in any mode returns, and its result is \<open>-1\<close> or an element of the healthy snapshot of
  that call; such an element is an index into the backend list, so the address lookup of
  \<^verbatim>\<open>handle\<close> is inside the vector.
\<close>

theorem select_backend_in_bounds:
  assumes "sized (manager w)"
  shows "\<exists>r w'. select_backend hasher ip w = Some (r, w') \<and>
           (r = - 1 \<or>
            (r \<in> set (get_healthy_indices (manager w)) \<and>
             0 \<le> r \<and> r < int (length (backend_servers (manager w))) \<and>
             vec_at (backend_servers (manager w')) r = Some (backend_servers (manager w) ! nat r)))"
proof -
  from select_backend_defined [OF assms, of hasher ip] obtain r w' where
    run: "select_backend hasher ip w = Some (r, w')" by blast
  have m: "manager w' = manager w" using select_backend_frame [OF run] by simp
  have "r = - 1 \<or> r \<in> set (get_healthy_indices (manager w))"
    by (rule select_backend_result [OF run])
  moreover have "0 \<le> r \<and> r < int (length (backend_servers (manager w))) \<and>
             vec_at (backend_servers (manager w')) r = Some (backend_servers (manager w) ! nat r)"
    if "r \<in> set (get_healthy_indices (manager w))"
    using healthy_indices_range [OF that] assms by (auto simp: sized_def vec_at_def m)
  ultimately show ?thesis using run by blast
qed

theorem select_backend_in_bounds_witness:
  "sized (manager w_busy) \<and>
   (\<exists>r w'. select_backend sample_hasher ''10.0.0.1'' w_busy = Some (r, w') \<and> r = 1 \<and>
      0 \<le> r \<and> r < 3 \<and> vec_at (backend_servers (manager w')) r = Some (''127.0.0.1'', 9002))"
proof -
  have s: "sized (manager w_busy)" by (simp add: sized_def w_busy_def init_fields)
  have run: "select_backend sample_hasher ''10.0.0.1'' w_busy = Some (1, w_busy)"
    by (rule select_busy)
  from select_backend_in_bounds [OF s, of sample_hasher "''10.0.0.1''"] run
  have "vec_at (backend_servers (manager w_busy)) 1 = Some (backend_servers (manager w_busy) ! nat 1)"
    by simp
  then have "vec_at (backend_servers (manager w_busy)) 1 = Some (''127.0.0.1'', 9002)"
    by (simp add: w_busy_def init_fields)
  with s run show ?thesis by simp
qed

section \<open>Health checking\<close>




lemma send_loop_le: "sent \<le> len \<Longrightarrow> snd (send_loop len sent rs) \<le> len"
  by (induction rs arbitrary: sent) (auto simp: sys_send_def Let_def min_def)

lemma send_loop_ok: "sent \<le> len \<Longrightarrow> fst (send_loop len sent rs) \<longleftrightarrow> snd (send_loop len sent rs) = len"
  by (induction rs arbitrary: sent) (auto simp: sys_send_def Let_def min_def)

lemma send_all_le: "snd (send_all buf rs) \<le> length buf"
  by (simp add: send_all_def send_loop_le)

lemma send_all_ok: "fst (send_all buf rs) \<longleftrightarrow> snd (send_all buf rs) = length buf"
  by (simp add: send_all_def send_loop_ok)

text \<open>
  \<open>send_all\<close> succeeds exactly when the socket's answers say the buffer was fully sent.
\<close>

lemma fully_sent_zero: "fully_sent 0 rets"
  unfolding fully_sent_def by (rule exI [of _ 0]) simp

lemma fully_sent_Nil: "fully_sent len [] \<longleftrightarrow> len = 0"
  by (simp add: fully_sent_def)

lemma sum_take_nonneg:
  "\<forall>i<k. 0 < (rs :: int list) ! i \<Longrightarrow> k \<le> length rs \<Longrightarrow> 0 \<le> sum_list (take k rs)"
proof (induction rs arbitrary: k)
  case Nil
  then show ?case by simp
next
  case (Cons r rs)
  show ?case
  proof (cases k)
    case 0
    then show ?thesis by simp
  next
    case (Suc k')
    have "0 < r" using Cons.prems(1) Suc by auto
    moreover have "0 \<le> sum_list (take k' rs)"
    proof (rule Cons.IH)
      show "\<forall>i<k'. 0 < rs ! i" using Cons.prems(1) Suc by auto
      show "k' \<le> length rs" using Cons.prems(2) Suc by simp
    qed
    ultimately show ?thesis using Suc by simp
  qed
qed

lemma fully_sent_Cons:
  "fully_sent len (r # rs) \<longleftrightarrow> len = 0 \<or> (0 < r \<and> fully_sent (len - nat r) rs)"
proof
  assume "fully_sent len (r # rs)"
  then obtain k where k: "k \<le> length (r # rs)" "\<forall>i<k. 0 < (r # rs) ! i"
    "int len \<le> sum_list (take k (r # rs))"
    unfolding fully_sent_def by blast
  show "len = 0 \<or> (0 < r \<and> fully_sent (len - nat r) rs)"
  proof (cases k)
    case 0
    then show ?thesis using k(3) by simp
  next
    case (Suc k')
    have r: "0 < r" using k(2) Suc by auto
    have pos: "\<forall>i<k'. 0 < rs ! i" using k(2) Suc by auto
    have le: "k' \<le> length rs" using k(1) Suc by simp
    have "0 \<le> sum_list (take k' rs)" by (rule sum_take_nonneg [OF pos le])
    moreover have "int len \<le> r + sum_list (take k' rs)" using k(3) Suc by simp
    ultimately have "int (len - nat r) \<le> sum_list (take k' rs)" using r by linarith
    then have "fully_sent (len - nat r) rs"
      unfolding fully_sent_def using pos le by blast
    then show ?thesis using r by simp
  qed
next
  assume a: "len = 0 \<or> (0 < r \<and> fully_sent (len - nat r) rs)"
  show "fully_sent len (r # rs)"
  proof (cases "len = 0")
    case True
    then show ?thesis by (simp add: fully_sent_zero)
  next
    case False
    then have r: "0 < r" and f: "fully_sent (len - nat r) rs" using a by simp_all
    from f obtain k where k: "k \<le> length rs" "\<forall>i<k. 0 < rs ! i"
      "int (len - nat r) \<le> sum_list (take k rs)"
      unfolding fully_sent_def by blast
    have "int len \<le> r + sum_list (take k rs)" using k(3) r by linarith
    moreover have "\<forall>i<Suc k. 0 < (r # rs) ! i" using k(2) r by (simp add: All_less_Suc2)
    ultimately show ?thesis
      unfolding fully_sent_def using k(1) by (intro exI [of _ "Suc k"]) simp
  qed
qed

lemma send_loop_fully_sent:
  "fst (send_loop len sent rs) \<longleftrightarrow> fully_sent (len - sent) rs"
proof (induction rs arbitrary: sent)
  case Nil
  then show ?case by (simp add: fully_sent_Nil) linarith
next
  case (Cons r rs)
  show ?case
  proof (cases "sent < len")
    case False
    then show ?thesis by (simp add: fully_sent_zero)
  next
    case True
    show ?thesis
    proof (cases "r \<le> 0")
      case nr: True
      then show ?thesis using True by (simp add: sys_send_def fully_sent_Cons)
    next
      case pr: False
      let ?n = "nat (min r (int (len - sent)))"
      have pos: "\<not> min r (int (len - sent)) \<le> 0" using pr True by simp
      have step: "send_loop len sent (r # rs) = send_loop len (sent + ?n) rs"
        using True pr pos by (simp add: sys_send_def Let_def del: of_nat_diff)
      have d: "len - (sent + ?n) = len - sent - nat r"
        using pr True by (simp add: min_def)
      have c: "fully_sent (len - sent) (r # rs) = fully_sent (len - sent - nat r) rs"
        using True pr by (simp add: fully_sent_Cons)
      show ?thesis
        unfolding step c using Cons.IH [of "sent + ?n"] unfolding d .
    qed
  qed
qed

lemma send_all_fully_sent: "fst (send_all buf rets) \<longleftrightarrow> fully_sent (length buf) rets"
  by (simp add: send_all_def send_loop_fully_sent)

lemma send_all_refused: "buf \<noteq> [] \<Longrightarrow> r \<le> 0 \<Longrightarrow> send_all buf (r # rs) = (False, 0)"
  by (simp add: send_all_def sys_send_def)



lemma set_health_fields:
  "i < length (backend_health m) \<Longrightarrow>
   set_health m (int i) b = Some (m\<lparr>backend_health := (backend_health m)[i := b]\<rparr>)"
  by (simp add: set_health_def vec_at_def)

lemma probe_loop_spec:
  assumes "\<forall>i\<in>set is. i < length (backend_health m)" and "distinct is"
  shows "\<exists>m'. probe_loop env is m = Some m' \<and>
           backend_servers m' = backend_servers m \<and>
           request_count m' = request_count m \<and>
           active_connections m' = active_connections m \<and>
           length (backend_health m') = length (backend_health m) \<and>
           (\<forall>i<length (backend_health m). backend_health m' ! i =
              (if i \<in> set is then probe (fst (backend_servers m ! i)) (env i)
               else backend_health m ! i))"
  using assms
proof (induction "is" arbitrary: m)
  case Nil
  then show ?case by simp
next
  case (Cons i rest)
  let ?b = "probe (fst (backend_servers m ! i)) (env i)"
  let ?m1 = "m\<lparr>backend_health := (backend_health m)[i := ?b]\<rparr>"
  have i: "i < length (backend_health m)" using Cons.prems by simp
  have step: "set_health m (int i) ?b = Some ?m1" by (rule set_health_fields [OF i])
  have r: "\<forall>j\<in>set rest. j < length (backend_health ?m1)" using Cons.prems by simp
  have d: "distinct rest" and ni: "i \<notin> set rest" using Cons.prems by simp_all
  from Cons.IH [OF r d] obtain m' where m':
    "probe_loop env rest ?m1 = Some m'"
    "backend_servers m' = backend_servers ?m1"
    "request_count m' = request_count ?m1"
    "active_connections m' = active_connections ?m1"
    "length (backend_health m') = length (backend_health ?m1)"
    "\<forall>j<length (backend_health ?m1). backend_health m' ! j =
              (if j \<in> set rest then probe (fst (backend_servers ?m1 ! j)) (env j)
               else backend_health ?m1 ! j)" by blast
  have run: "probe_loop env (i # rest) m = Some m'" using step m'(1) by simp
  have fl: "\<forall>j<length (backend_health m). backend_health m' ! j =
              (if j \<in> set (i # rest) then probe (fst (backend_servers m ! j)) (env j)
               else backend_health m ! j)"
    using m'(6) ni i by (auto simp: nth_list_update)
  show ?case using run m'(2-5) fl by simp
qed










section \<open>Connection handling\<close>

lemma sint_incr:
  assumes "x \<noteq> INT_MAX"
  shows "sint (x + 1 :: c_int) = sint x + 1"
proof -
  have "sint x < sint INT_MAX" using assms by (simp add: sint_less_INT_MAX_iff)
  then have up: "sint x + 1 < 2 ^ 31" by (simp add: INT_MAX_def)
  have lo: "- (2 ^ 31) \<le> sint x + 1" using sint_ge [of x] by simp
  have "sint (x + 1) = signed_take_bit 31 (sint x + 1)"
    by (simp add: sint_word_ariths)
  also have "\<dots> = sint x + 1" by (rule signed_take_bit_int_eq_self [OF lo up])
  finally show ?thesis .
qed

lemma incr_decr: "incr x = Some y \<Longrightarrow> decr y = Some x"
proof -
  assume a: "incr x = Some y"
  then have x: "x \<noteq> INT_MAX" and y: "y = x + 1" by (auto simp: incr_def split: if_splits)
  have "x + 1 \<noteq> INT_MIN"
  proof
    assume "x + 1 = INT_MIN"
    then have "x = INT_MIN - 1" by (simp add: eq_diff_eq)
    then show False using x by (simp add: INT_MIN_def INT_MAX_def)
  qed
  then show ?thesis using y by (simp add: decr_def)
qed

lemma select_backend_none:
  assumes "select_backend hasher ip w = Some (- 1, w1)"
  shows "w1 = w"
proof (cases "algorithm (balancer w) = ROUND_ROBIN \<and> get_healthy_indices (manager w) \<noteq> []")
  case True
  let ?h = "get_healthy_indices (manager w)"
  have "?h ! (unat (rr_index (balancer w)) mod length ?h) \<in> set ?h"
    using True by (intro nth_mem) simp
  then have "0 \<le> ?h ! (unat (rr_index (balancer w)) mod length ?h)"
    using healthy_indices_range by blast
  moreover have "?h ! (unat (rr_index (balancer w)) mod length ?h) = - 1"
    using assms True by (simp add: select_backend_round_robin)
  ultimately show ?thesis by simp
next
  case False
  then show ?thesis using assms
    by (auto simp: select_backend_def Let_def split: if_splits LBAlgorithm.splits option.splits)
qed

lemma create_connection_cases:
  "create_connection ip port env =
     (if socket_ret env = - 1 then (- 1, [Socket (- 1)])
      else if connect_ret env = - 1
        then (- 1, [Socket (socket_ret env), Connect (socket_ret env) ip port (- 1), Close (socket_ret env)])
      else (socket_ret env, [Socket (socket_ret env), Connect (socket_ret env) ip port (connect_ret env)]))"
  by (simp add: create_connection_def Let_def)

lemma create_connection_connected:
  "fst (create_connection ip port env) \<noteq> - 1 \<longleftrightarrow> connected env"
  by (simp add: create_connection_cases connected_def)

lemma forward_once_request:
  "fst (fst (forward_once src_fd src dst_fd dst any)) \<longleftrightarrow>
     (case recv_ret src of
        None \<Rightarrow> False
      | Some bs \<Rightarrow> bs \<noteq> [] \<and> fully_sent (length (take 8192 bs)) (send_rets dst))"
proof (cases "recv_ret src")
  case None
  then show ?thesis by (simp add: forward_once_def sys_recv_def)
next
  case (Some bs)
  have e: "int (length (take 8192 bs)) \<le> 0 \<longleftrightarrow> bs = []" by (cases bs) simp_all
  show ?thesis
    using Some e by (simp add: forward_once_def sys_recv_def send_all_fully_sent case_prod_beta)
qed

lemma request_leg_forward:
  "fst (fst (forward_once fd cenv bfd (peer benv) any)) = request_leg_ok cenv benv"
  by (simp add: forward_once_request request_leg_ok_def)

lemma create_connection_fd:
  "connected env \<Longrightarrow> fst (create_connection ip port env) = socket_ret env"
  by (simp add: create_connection_cases connected_def)

text \<open>
  The four ways through \<^verbatim>\<open>handle\<close>: no backend selected, connection not opened, request
  leg failed, request relayed.
\<close>

lemma handle_cases:
  assumes "handle hasher fd ip cenv benv w = Some run"
  obtains
    (none) "select_backend hasher ip w = Some (- 1, w)"
      "run = \<lparr>final = w,
              events = [SendAll fd msg_unavailable (snd (send_all msg_unavailable (send_rets cenv))),
                        Close fd],
              snapshots = []\<rparr>"
  | (refused) r w1 a where
      "select_backend hasher ip w = Some (r, w1)" "r \<noteq> - 1"
      "vec_at (backend_servers (manager w)) r = Some a" "\<not> connected benv"
      "run = \<lparr>final = w1,
              events = snd (create_connection (fst a) (snd a) benv) @
                [SendAll fd msg_connect_failed (snd (send_all msg_connect_failed (send_rets cenv))),
                 Close fd],
              snapshots = []\<rparr>"
  | (aborted) r w1 a m1 m2 where
      "select_backend hasher ip w = Some (r, w1)" "r \<noteq> - 1"
      "vec_at (backend_servers (manager w)) r = Some a" "connected benv"
      "\<not> request_leg_ok cenv benv"
      "increment_active (manager w) r = Some m1" "decrement_active m1 r = Some m2"
      "run = \<lparr>final = w1\<lparr>manager := m2\<rparr>,
              events = snd (create_connection (fst a) (snd a) benv) @ [IncrementActive r] @
                snd (forward_once fd cenv (socket_ret benv) (peer benv) False) @
                [Close (socket_ret benv), Close fd, DecrementActive r],
              snapshots = [m1, m2]\<rparr>"
  | (relayed) r w1 a m1 m2 m3 where
      "select_backend hasher ip w = Some (r, w1)" "r \<noteq> - 1"
      "vec_at (backend_servers (manager w)) r = Some a" "connected benv"
      "request_leg_ok cenv benv"
      "increment_active (manager w) r = Some m1" "increment_requests m1 r = Some m2"
      "decrement_active m2 r = Some m3"
      "run = \<lparr>final = w1\<lparr>manager := m3\<rparr>,
              events = snd (create_connection (fst a) (snd a) benv) @ [IncrementActive r] @
                snd (forward_once fd cenv (socket_ret benv) (peer benv) False) @
                snd (forward_once (socket_ret benv) (peer benv) fd cenv False) @
                [IncrementRequests r, DecrementActive r, Close (socket_ret benv), Close fd],
              snapshots = [m1, m2, m3]\<rparr>"
proof -
  from assms obtain r w1 where sel: "select_backend hasher ip w = Some (r, w1)"
    by (auto simp: handle_def split: option.splits)
  have mw: "manager w1 = manager w" using select_backend_frame [OF sel] by simp
  show thesis
  proof (cases "r = - 1")
    case True
    then have w1: "w1 = w" using sel select_backend_none by blast
    show thesis
      by (rule none) (use assms sel True w1 in \<open>simp_all add: handle_def\<close>)
  next
    case False
    from assms sel False obtain a where a: "vec_at (backend_servers (manager w)) r = Some a"
      by (auto simp: handle_def mw split: option.splits)
    show thesis
    proof (cases "connected benv")
      case nc: False
      then have fd: "fst (create_connection (fst a) (snd a) benv) = - 1"
        using create_connection_connected by blast
      have "run = \<lparr>final = w1,
              events = snd (create_connection (fst a) (snd a) benv) @
                [SendAll fd msg_connect_failed (snd (send_all msg_connect_failed (send_rets cenv))),
                 Close fd],
              snapshots = []\<rparr>"
        using assms sel False a fd by (simp add: handle_def mw case_prod_beta)
      then show thesis by (rule refused [OF sel False a nc])
    next
      case c: True
      have fd: "fst (create_connection (fst a) (snd a) benv) = socket_ret benv"
        by (rule create_connection_fd [OF c])
      have ne: "socket_ret benv \<noteq> - 1" using c by (simp add: connected_def)
      from assms sel False a fd ne obtain m1 where m1: "increment_active (manager w) r = Some m1"
        by (auto simp: handle_def mw case_prod_beta split: option.splits)
      show thesis
      proof (cases "request_leg_ok cenv benv")
        case nr: False
        from assms sel False a fd ne m1 nr obtain m2 where m2: "decrement_active m1 r = Some m2"
          by (auto simp: handle_def mw case_prod_beta request_leg_forward split: option.splits)
        have "run = \<lparr>final = w1\<lparr>manager := m2\<rparr>,
              events = snd (create_connection (fst a) (snd a) benv) @ [IncrementActive r] @
                snd (forward_once fd cenv (socket_ret benv) (peer benv) False) @
                [Close (socket_ret benv), Close fd, DecrementActive r],
              snapshots = [m1, m2]\<rparr>"
          using assms sel False a fd ne m1 nr m2
          by (simp add: handle_def mw case_prod_beta request_leg_forward)
        then show thesis by (rule aborted [OF sel False a c nr m1 m2])
      next
        case ok: True
        from assms sel False a fd ne m1 ok obtain m2 where m2: "increment_requests m1 r = Some m2"
          by (auto simp: handle_def mw case_prod_beta request_leg_forward split: option.splits)
        from assms sel False a fd ne m1 ok m2 obtain m3 where m3: "decrement_active m2 r = Some m3"
          by (auto simp: handle_def mw case_prod_beta request_leg_forward split: option.splits)
        have "run = \<lparr>final = w1\<lparr>manager := m3\<rparr>,
              events = snd (create_connection (fst a) (snd a) benv) @ [IncrementActive r] @
                snd (forward_once fd cenv (socket_ret benv) (peer benv) False) @
                snd (forward_once (socket_ret benv) (peer benv) fd cenv False) @
                [IncrementRequests r, DecrementActive r, Close (socket_ret benv), Close fd],
              snapshots = [m1, m2, m3]\<rparr>"
          using assms sel False a fd ne m1 ok m2 m3
          by (simp add: handle_def mw case_prod_beta request_leg_forward)
        then show thesis by (rule relayed [OF sel False a c ok m1 m2 m3])
      qed
    qed
  qed
qed

lemma increment_active_Some:
  assumes "increment_active m r = Some m1"
  shows "0 \<le> r" "nat r < length (active_connections m)"
    "active_connections m ! nat r \<noteq> INT_MAX"
    "m1 = m\<lparr>active_connections := (active_connections m)[nat r := active_connections m ! nat r + 1]\<rparr>"
  using assms by (auto simp: increment_active_def vec_at_def incr_def split: if_splits)

lemma decrement_active_Some:
  assumes "decrement_active m r = Some m1"
  shows "0 \<le> r" "nat r < length (active_connections m)"
    "active_connections m ! nat r \<noteq> INT_MIN"
    "m1 = m\<lparr>active_connections := (active_connections m)[nat r := active_connections m ! nat r - 1]\<rparr>"
  using assms by (auto simp: decrement_active_def vec_at_def decr_def split: if_splits)

lemma increment_requests_Some:
  assumes "increment_requests m r = Some m1"
  shows "0 \<le> r" "nat r < length (request_count m)"
    "request_count m ! nat r \<noteq> INT_MAX"
    "m1 = m\<lparr>request_count := (request_count m)[nat r := request_count m ! nat r + 1]\<rparr>"
  using assms by (auto simp: increment_requests_def vec_at_def incr_def split: if_splits)

lemma forward_once_no_registry:
  "IncrementActive i \<notin> set (snd (forward_once sfd s dfd d any))"
  "DecrementActive i \<notin> set (snd (forward_once sfd s dfd d any))"
  "IncrementRequests i \<notin> set (snd (forward_once sfd s dfd d any))"
  by (auto simp: forward_once_def split: prod.splits)

lemma create_connection_no_registry:
  "IncrementActive i \<notin> set (snd (create_connection ip port env))"
  "DecrementActive i \<notin> set (snd (create_connection ip port env))"
  "IncrementRequests i \<notin> set (snd (create_connection ip port env))"
  by (simp_all add: create_connection_cases)

lemma create_connection_events:
  "connected env \<Longrightarrow>
   snd (create_connection ip port env) =
     [Socket (socket_ret env), Connect (socket_ret env) ip port (connect_ret env)]"
  by (simp add: create_connection_cases connected_def)

text \<open>An increment followed by a decrement of the same counter restores the registry.\<close>

lemma active_round_trip:
  assumes "increment_active m r = Some m1" and "decrement_active m1 r = Some m2"
  shows "m2 = m"
proof -
  note i = increment_active_Some [OF assms(1)]
  note d = decrement_active_Some [OF assms(2)]
  show ?thesis
    unfolding d(4) unfolding i(4) using i(2) by simp
qed

lemma active_round_trip_requests:
  assumes "increment_active m r = Some m1" and "increment_requests m1 r = Some m2"
    and "decrement_active m2 r = Some m3"
  shows "m3 = m\<lparr>request_count := (request_count m)[nat r := request_count m ! nat r + 1]\<rparr>"
proof -
  note i = increment_active_Some [OF assms(1)]
  note q = increment_requests_Some [OF assms(2)]
  note d = decrement_active_Some [OF assms(3)]
  show ?thesis
    unfolding d(4) unfolding q(4) unfolding i(4) using i(2) by simp
qed

lemma increment_active_nonneg:
  assumes "increment_active m r = Some m1"
    and "\<forall>j<length (active_connections m). 0 \<le> sint (active_connections m ! j)"
  shows "length (active_connections m1) = length (active_connections m) \<and>
         (\<forall>j<length (active_connections m1). 0 \<le> sint (active_connections m1 ! j))"
proof -
  note i = increment_active_Some [OF assms(1)]
  have "0 \<le> sint (active_connections m ! nat r + 1)"
    using sint_incr [OF i(3)] assms(2) i(2) by simp
  then show ?thesis unfolding i(4) using assms(2) i(2) by (simp add: nth_list_update)
qed

lemma increment_requests_active:
  "increment_requests m r = Some m1 \<Longrightarrow> active_connections m1 = active_connections m"
  by (auto simp: increment_requests_def split: option.splits)

text \<open>
  A run of the handler has defined behaviour whenever no counter is at \<^verbatim>\<open>INT_MAX\<close>.
\<close>

lemma handle_defined:
  assumes "sized (manager w)"
    and "\<forall>j<length (backend_servers (manager w)).
           active_connections (manager w) ! j \<noteq> INT_MAX \<and> request_count (manager w) ! j \<noteq> INT_MAX"
  shows "\<exists>run. handle hasher fd ip cenv benv w = Some run"
proof -
  let ?m = "manager w"
  from select_backend_defined [OF assms(1), of hasher ip] obtain r w1 where
    sel: "select_backend hasher ip w = Some (r, w1)" by blast
  have mw: "manager w1 = ?m" using select_backend_frame [OF sel] by simp
  show ?thesis
  proof (cases "r = - 1")
    case True
    then show ?thesis using sel by (simp add: handle_def)
  next
    case False
    then have "r \<in> set (get_healthy_indices ?m)" using select_backend_result [OF sel] by simp
    then have r: "0 \<le> r" "nat r < length (backend_servers ?m)"
      using healthy_indices_range [of r ?m] assms(1) by (simp_all add: sized_def)
    let ?v = "active_connections ?m ! nat r"
    let ?m1 = "?m\<lparr>active_connections := (active_connections ?m)[nat r := ?v + 1]\<rparr>"
    let ?m2 = "?m1\<lparr>request_count := (request_count ?m)[nat r := request_count ?m ! nat r + 1]\<rparr>"
    have sat: "?v \<noteq> INT_MAX" "request_count ?m ! nat r \<noteq> INT_MAX" using assms(2) r by simp_all
    have len: "nat r < length (active_connections ?m)" "nat r < length (request_count ?m)"
      using r assms(1) by (simp_all add: sized_def)
    have a: "vec_at (backend_servers ?m) r = Some (backend_servers ?m ! nat r)"
      using r by (simp add: vec_at_def)
    have dv: "decr (?v + 1) = Some ?v"
      by (rule incr_decr) (simp add: incr_def sat)
    have ia: "increment_active ?m r = Some ?m1"
      using r len sat by (simp add: increment_active_def vec_at_def incr_def)
    have da: "decrement_active ?m1 r = Some (?m1\<lparr>active_connections := (active_connections ?m1)[nat r := ?v]\<rparr>)"
      using r len dv by (simp add: decrement_active_def vec_at_def)
    have iq: "increment_requests ?m1 r = Some ?m2"
      using r len sat by (simp add: increment_requests_def vec_at_def incr_def)
    have dq: "decrement_active ?m2 r = Some (?m2\<lparr>active_connections := (active_connections ?m2)[nat r := ?v]\<rparr>)"
      using r len dv by (simp add: decrement_active_def vec_at_def)
    show ?thesis
      using sel False a ia da iq dq
      by (simp add: handle_def mw case_prod_beta del: One_nat_def)
  qed
qed

lemma select_init_rr:
  "select_backend hasher ip (world_init ROUND_ROBIN) =
     Some (0, (world_init ROUND_ROBIN)\<lparr>balancer := \<lparr>algorithm = ROUND_ROBIN, rr_index = 1\<rparr>\<rparr>)"
  by (simp add: select_backend_def world_init_def healthy_init LoadBalancer_init_def)

lemma unsaturated_init:
  "\<forall>j<length (backend_servers BackendManager_init).
     active_connections BackendManager_init ! j \<noteq> INT_MAX \<and>
     request_count BackendManager_init ! j \<noteq> INT_MAX"
  by (simp add: init_fields INT_MAX_def nth_Cons split: nat.splits)

lemma handle_active_restored:
  assumes h: "handle hasher fd ip cenv benv w = Some run"
  shows "active_connections (manager (final run)) = active_connections (manager w)"
  using h
proof (cases rule: handle_cases)
  case none
  then show ?thesis by simp
next
  case (refused r' w1' a)
  then show ?thesis using select_backend_frame [of hasher ip w r' w1'] by simp
next
  case (aborted r' w1' a m1 m2)
  then show ?thesis using active_round_trip [of "manager w" r' m1 m2] by simp
next
  case (relayed r' w1' a m1 m2 m3)
  then show ?thesis
    using active_round_trip_requests [of "manager w" r' m1 m2 m3] by simp
qed

lemma handle_snapshots_nonneg:
  assumes h: "handle hasher fd ip cenv benv w = Some run"
    and nn: "\<forall>j<length (active_connections (manager w)). 0 \<le> sint (active_connections (manager w) ! j)"
  shows "\<forall>m\<in>set (snapshots run).
          length (active_connections m) = length (active_connections (manager w)) \<and>
          (\<forall>j<length (active_connections m). 0 \<le> sint (active_connections m ! j))"
  using h
proof (cases rule: handle_cases)
  case none
  then show ?thesis by simp
next
  case (refused r' w1' a)
  then show ?thesis by simp
next
  case (aborted r' w1' a m1 m2)
  have m2: "m2 = manager w" by (rule active_round_trip [OF aborted(6,7)])
  have s: "snapshots run = [m1, m2]" using aborted(8) by simp
  show ?thesis
    unfolding s using nn increment_active_nonneg [OF aborted(6) nn] m2 by simp
next
  case (relayed r' w1' a m1 m2 m3)
  have m3: "active_connections m3 = active_connections (manager w)"
    using active_round_trip_requests [OF relayed(6,7,8)] by simp
  have m2: "active_connections m2 = active_connections m1"
    by (rule increment_requests_active [OF relayed(7)])
  have s: "snapshots run = [m1, m2, m3]" using relayed(9) by simp
  show ?thesis
    unfolding s using nn increment_active_nonneg [OF relayed(6) nn] m2 m3 by simp
qed

lemma handle_calls_connected:
  assumes h: "handle hasher fd ip cenv benv w = Some run"
    and sel: "select_backend hasher ip w = Some (r, w1)"
    and c: "r \<noteq> - 1" "connected benv"
  shows "\<exists>a m1 rest.
            vec_at (backend_servers (manager w)) r = Some a \<and>
            increment_active (manager w) r = Some m1 \<and>
            events run =
              [Socket (socket_ret benv),
               Connect (socket_ret benv) (fst a) (snd a) (connect_ret benv),
               IncrementActive r] @ rest \<and>
            count_list rest (DecrementActive r) = 1 \<and>
            (\<forall>i. IncrementActive i \<notin> set rest) \<and>
            (\<forall>i. i \<noteq> r \<longrightarrow> DecrementActive i \<notin> set rest) \<and>
            snapshots run \<noteq> [] \<and> hd (snapshots run) = m1 \<and>
            last (snapshots run) = manager (final run)"
  using h
proof (cases rule: handle_cases)
  case none
  then show ?thesis using sel c by simp
next
  case (refused r' w1' a)
  then show ?thesis using c by simp
next
  case (aborted r' w1' a m1 m2)
  let ?fw = "snd (forward_once fd cenv (socket_ret benv) (peer benv) False)"
  let ?rest = "?fw @ [Close (socket_ret benv), Close fd, DecrementActive r]"
  have r: "r' = r" using aborted(1) sel by simp
  have ev: "events run = [Socket (socket_ret benv),
             Connect (socket_ret benv) (fst a) (snd a) (connect_ret benv),
             IncrementActive r] @ ?rest"
    using aborted(8) create_connection_events [OF aborted(4)] r by simp
  have sn: "snapshots run = [m1, m2]" "manager (final run) = m2" using aborted(8) by simp_all
  have cnt: "count_list ?rest (DecrementActive r) = 1"
    by (simp add: forward_once_no_registry)
  have n1: "\<forall>i. IncrementActive i \<notin> set ?rest" by (simp add: forward_once_no_registry)
  have n2: "\<forall>i. i \<noteq> r \<longrightarrow> DecrementActive i \<notin> set ?rest" by (simp add: forward_once_no_registry)
  have va: "vec_at (backend_servers (manager w)) r = Some a" using aborted(3) r by simp
  have ia: "increment_active (manager w) r = Some m1" using aborted(6) r by simp
  show ?thesis
    apply (rule exI [of _ a], rule exI [of _ m1], rule exI [of _ ?rest])
    apply (intro conjI)
            apply (rule va)
           apply (rule ia)
          apply (rule ev)
         apply (rule cnt)
        apply (rule n1)
       apply (rule n2)
      apply (simp_all add: sn)
    done
next
  case (relayed r' w1' a m1 m2 m3)
  let ?fw = "snd (forward_once fd cenv (socket_ret benv) (peer benv) False) @
              snd (forward_once (socket_ret benv) (peer benv) fd cenv False)"
  let ?rest = "?fw @ [IncrementRequests r, DecrementActive r, Close (socket_ret benv), Close fd]"
  have r: "r' = r" using relayed(1) sel by simp
  have ev: "events run = [Socket (socket_ret benv),
             Connect (socket_ret benv) (fst a) (snd a) (connect_ret benv),
             IncrementActive r] @ ?rest"
    using relayed(9) create_connection_events [OF relayed(4)] r by simp
  have sn: "snapshots run = [m1, m2, m3]" "manager (final run) = m3" using relayed(9) by simp_all
  have cnt: "count_list ?rest (DecrementActive r) = 1"
    by (simp add: forward_once_no_registry)
  have n1: "\<forall>i. IncrementActive i \<notin> set ?rest" by (simp add: forward_once_no_registry)
  have n2: "\<forall>i. i \<noteq> r \<longrightarrow> DecrementActive i \<notin> set ?rest" by (simp add: forward_once_no_registry)
  have va: "vec_at (backend_servers (manager w)) r = Some a" using relayed(3) r by simp
  have ia: "increment_active (manager w) r = Some m1" using relayed(6) r by simp
  show ?thesis
    apply (rule exI [of _ a], rule exI [of _ m1], rule exI [of _ ?rest])
    apply (intro conjI)
            apply (rule va)
           apply (rule ia)
          apply (rule ev)
         apply (rule cnt)
        apply (rule n1)
       apply (rule n2)
      apply (simp_all add: sn)
    done
qed

lemma handle_calls_unconnected:
  assumes h: "handle hasher fd ip cenv benv w = Some run"
    and sel: "select_backend hasher ip w = Some (r, w1)"
    and c: "\<not> (r \<noteq> - 1 \<and> connected benv)"
  shows "(\<forall>i. IncrementActive i \<notin> set (events run) \<and> DecrementActive i \<notin> set (events run) \<and>
              IncrementRequests i \<notin> set (events run)) \<and>
         snapshots run = [] \<and> final run = w1 \<and> manager (final run) = manager w"
  using h
proof (cases rule: handle_cases)
  case none
  then show ?thesis using sel by simp
next
  case (refused r' w1' a)
  have r: "r' = r" "w1' = w1" using refused(1) sel by simp_all
  have m: "manager w1 = manager w" using select_backend_frame [OF sel] by simp
  have ev: "events run = snd (create_connection (fst a) (snd a) benv) @
                [SendAll fd msg_connect_failed (snd (send_all msg_connect_failed (send_rets cenv))),
                 Close fd]"
    and sn: "snapshots run = []" and fi: "final run = w1"
    using refused(5) r by simp_all
  show ?thesis unfolding ev sn fi using m by (simp add: create_connection_no_registry)
next
  case (aborted r' w1' a m1 m2)
  then show ?thesis using sel c by simp
next
  case (relayed r' w1' a m1 m2 m3)
  then show ?thesis using sel c by simp
qed

lemma handle_requests:
  assumes h: "handle hasher fd ip cenv benv w = Some run"
    and sel: "select_backend hasher ip w = Some (r, w1)"
  shows "if r \<noteq> - 1 \<and> connected benv \<and> request_leg_ok cenv benv then
           request_count (manager (final run)) =
             (request_count (manager w))[nat r := request_count (manager w) ! nat r + 1] \<and>
           0 \<le> r \<and> nat r < length (request_count (manager w)) \<and>
           request_count (manager w) ! nat r \<noteq> INT_MAX \<and>
           count_list (events run) (IncrementRequests r) = 1 \<and>
           (\<forall>i. i \<noteq> r \<longrightarrow> IncrementRequests i \<notin> set (events run))
         else
           request_count (manager (final run)) = request_count (manager w) \<and>
           (\<forall>i. IncrementRequests i \<notin> set (events run))"
  using h
proof (cases rule: handle_cases)
  case none
  then show ?thesis using sel by simp
next
  case (refused r' w1' a)
  have r: "r' = r" "w1' = w1" using refused(1) sel by simp_all
  have m: "manager w1 = manager w" using select_backend_frame [OF sel] by simp
  have ev: "events run = snd (create_connection (fst a) (snd a) benv) @
                [SendAll fd msg_connect_failed (snd (send_all msg_connect_failed (send_rets cenv))),
                 Close fd]"
    and fi: "final run = w1"
    using refused(5) r by simp_all
  have "request_count (manager (final run)) = request_count (manager w) \<and>
           (\<forall>i. IncrementRequests i \<notin> set (events run))"
    unfolding ev fi using m by (simp add: create_connection_no_registry)
  then show ?thesis using refused(4) by simp
next
  case (aborted r' w1' a m1 m2)
  have m2: "m2 = manager w" by (rule active_round_trip [OF aborted(6,7)])
  have ev: "events run = snd (create_connection (fst a) (snd a) benv) @ [IncrementActive r'] @
                snd (forward_once fd cenv (socket_ret benv) (peer benv) False) @
                [Close (socket_ret benv), Close fd, DecrementActive r']"
    and fi: "manager (final run) = m2"
    using aborted(8) by simp_all
  have "request_count (manager (final run)) = request_count (manager w) \<and>
           (\<forall>i. IncrementRequests i \<notin> set (events run))"
    unfolding ev fi m2 by (simp add: create_connection_no_registry forward_once_no_registry)
  then show ?thesis using aborted(5) by simp
next
  case (relayed r' w1' a m1 m2 m3)
  have r: "r' = r" using relayed(1) sel by simp
  note i = increment_active_Some [OF relayed(6)]
  note q = increment_requests_Some [OF relayed(7)]
  have rc1: "request_count m1 = request_count (manager w)" unfolding i(4) by simp
  have m3: "m3 = (manager w)\<lparr>request_count :=
      (request_count (manager w))[nat r' := request_count (manager w) ! nat r' + 1]\<rparr>"
    by (rule active_round_trip_requests [OF relayed(6,7,8)])
  have ev: "events run = snd (create_connection (fst a) (snd a) benv) @ [IncrementActive r'] @
                snd (forward_once fd cenv (socket_ret benv) (peer benv) False) @
                snd (forward_once (socket_ret benv) (peer benv) fd cenv False) @
                [IncrementRequests r', DecrementActive r', Close (socket_ret benv), Close fd]"
    and fi: "manager (final run) = m3"
    using relayed(9) by simp_all
  have cnt: "count_list (events run) (IncrementRequests r') = 1"
    unfolding ev by (simp add: create_connection_no_registry forward_once_no_registry)
  have oth: "\<forall>i. i \<noteq> r' \<longrightarrow> IncrementRequests i \<notin> set (events run)"
    unfolding ev by (simp add: create_connection_no_registry forward_once_no_registry)
  have rc: "request_count (manager (final run)) =
             (request_count (manager w))[nat r' := request_count (manager w) ! nat r' + 1]"
    unfolding fi m3 by simp
  show ?thesis
    using relayed(2,4,5) rc cnt oth q(1,2,3) rc1 r by simp
qed

lemma handle_unconnected_events:
  assumes h: "handle hasher fd ip cenv benv w = Some run"
    and sel: "select_backend hasher ip w = Some (r, w1)"
    and c: "r = - 1 \<or> \<not> connected benv"
  shows "(r = - 1 \<longrightarrow>
            events run =
              [SendAll fd msg_unavailable (snd (send_all msg_unavailable (send_rets cenv))),
               Close fd]) \<and>
         (r \<noteq> - 1 \<longrightarrow>
            (\<exists>a. vec_at (backend_servers (manager w)) r = Some a \<and>
               events run =
                 (if socket_ret benv = - 1 then [Socket (- 1)]
                  else [Socket (socket_ret benv),
                        Connect (socket_ret benv) (fst a) (snd a) (- 1),
                        Close (socket_ret benv)]) @
                 [SendAll fd msg_connect_failed (snd (send_all msg_connect_failed (send_rets cenv))),
                  Close fd]))"
  using h
proof (cases rule: handle_cases)
  case none
  then show ?thesis using sel by simp
next
  case (refused r' w1' a)
  have r: "r' = r" using refused(1) sel by simp
  have cc: "snd (create_connection (fst a) (snd a) benv) =
      (if socket_ret benv = - 1 then [Socket (- 1)]
                  else [Socket (socket_ret benv),
                        Connect (socket_ret benv) (fst a) (snd a) (- 1),
                        Close (socket_ret benv)])"
    using refused(4) by (auto simp: create_connection_cases connected_def)
  have ev: "events run = snd (create_connection (fst a) (snd a) benv) @
                [SendAll fd msg_connect_failed (snd (send_all msg_connect_failed (send_rets cenv))),
                 Close fd]"
    using refused(5) by simp
  have "\<exists>a. vec_at (backend_servers (manager w)) r = Some a \<and>
               events run =
                 (if socket_ret benv = - 1 then [Socket (- 1)]
                  else [Socket (socket_ret benv),
                        Connect (socket_ret benv) (fst a) (snd a) (- 1),
                        Close (socket_ret benv)]) @
                 [SendAll fd msg_connect_failed (snd (send_all msg_connect_failed (send_rets cenv))),
                  Close fd]"
    apply (rule exI [of _ a])
    unfolding ev cc using refused(3) r by simp
  then show ?thesis using refused(2) r by simp
next
  case (aborted r' w1' a m1 m2)
  then show ?thesis using sel c by simp
next
  case (relayed r' w1' a m1 m2 m3)
  then show ?thesis using sel c by simp
qed

lemma sized_world_init: "sized (manager (world_init algo))"
  by (simp add: world_init_fields sized_init)

lemma unsaturated_world_init:
  "\<forall>j<length (backend_servers (manager (world_init algo))).
     active_connections (manager (world_init algo)) ! j \<noteq> INT_MAX \<and>
     request_count (manager (world_init algo)) ! j \<noteq> INT_MAX"
  using unsaturated_init by (simp add: world_init_fields)

lemma connected_samples:
  "connected sample_backend" "connected silent_backend" "\<not> connected refused_backend"
  by (simp_all add: connected_def sample_backend_def silent_backend_def refused_backend_def)

lemma sample_sends:
  "snd (send_all msg_unavailable (send_rets sample_client)) = length msg_unavailable"
  "snd (send_all msg_connect_failed (send_rets sample_client)) = length msg_connect_failed"
  by (simp_all add: send_all_def sample_client_def msg_unavailable_def msg_connect_failed_def
      crlf_def sys_send_def)

lemma sample_request_leg: "request_leg_ok sample_client silent_backend"
  by (simp add: request_leg_ok_def sample_client_def silent_backend_def fully_sent_Cons fully_sent_Nil)

text \<open>The invariant \<open>sized\<close> is kept by a probe cycle and by a run of the handler.\<close>

lemma probe_cycle_sized:
  assumes "sized m" and "probe_cycle env m = Some m'"
  shows "sized m'"
proof -
  have r: "\<forall>i\<in>set [0 ..< length (backend_servers m)]. i < length (backend_health m)"
    using assms(1) by (simp add: sized_def)
  from probe_loop_spec [OF r distinct_upt, of env] assms
  show ?thesis by (auto simp: probe_cycle_def sized_def)
qed

lemma handle_sized:
  assumes h: "handle hasher fd ip cenv benv w = Some run" and s: "sized (manager w)"
  shows "sized (manager (final run))"
  using h
proof (cases rule: handle_cases)
  case none
  then show ?thesis using s by simp
next
  case (refused r w1 a)
  then show ?thesis using s select_backend_frame [of hasher ip w r w1] by simp
next
  case (aborted r w1 a m1 m2)
  then show ?thesis using s active_round_trip [of "manager w" r m1 m2] by simp
next
  case (relayed r w1 a m1 m2 m3)
  then show ?thesis
    using s active_round_trip_requests [of "manager w" r m1 m2 m3] by (simp add: sized_def)
qed

text \<open>
  Claim C1: a run of the handler has defined behaviour on every registry built by the
  constructor with no counter at \<^verbatim>\<open>INT_MAX\<close>. When it finishes, on any path, every
  active-connection count equals its value before the run; if no count was negative before,
  none is negative in any registry state the run passes through. When a backend \<open>r\<close> was
  selected and the connection to it opened, the run's events start with the successful
  connect to the address of \<open>r\<close>, followed by \<^verbatim>\<open>increment_active(r)\<close>, and what follows
  holds \<^verbatim>\<open>decrement_active(r)\<close> exactly once and no other increment or decrement of an
  active count; otherwise the run calls neither and writes nothing to the registry.
\<close>

theorem handle_active_connections:
  "(sized (manager w) \<and>
    (\<forall>j<length (backend_servers (manager w)).
        active_connections (manager w) ! j \<noteq> INT_MAX \<and> request_count (manager w) ! j \<noteq> INT_MAX)
    \<longrightarrow> (\<exists>run. handle hasher fd ip cenv benv w = Some run)) \<and>
   (\<forall>run r w1.
      handle hasher fd ip cenv benv w = Some run \<and> select_backend hasher ip w = Some (r, w1) \<longrightarrow>
      active_connections (manager (final run)) = active_connections (manager w) \<and>
      ((\<forall>j<length (active_connections (manager w)). 0 \<le> sint (active_connections (manager w) ! j)) \<longrightarrow>
       (\<forall>m\<in>set (snapshots run).
          length (active_connections m) = length (active_connections (manager w)) \<and>
          (\<forall>j<length (active_connections m). 0 \<le> sint (active_connections m ! j)))) \<and>
      (if r \<noteq> - 1 \<and> connected benv then
         (\<exists>a m1 rest.
            vec_at (backend_servers (manager w)) r = Some a \<and>
            increment_active (manager w) r = Some m1 \<and>
            events run =
              [Socket (socket_ret benv),
               Connect (socket_ret benv) (fst a) (snd a) (connect_ret benv),
               IncrementActive r] @ rest \<and>
            count_list rest (DecrementActive r) = 1 \<and>
            (\<forall>i. IncrementActive i \<notin> set rest) \<and>
            (\<forall>i. i \<noteq> r \<longrightarrow> DecrementActive i \<notin> set rest) \<and>
            snapshots run \<noteq> [] \<and> hd (snapshots run) = m1 \<and>
            last (snapshots run) = manager (final run))
       else
         (\<forall>i. IncrementActive i \<notin> set (events run) \<and> DecrementActive i \<notin> set (events run)) \<and>
         snapshots run = [] \<and> manager (final run) = manager w))"
proof (rule conjI)
  show "sized (manager w) \<and>
    (\<forall>j<length (backend_servers (manager w)).
        active_connections (manager w) ! j \<noteq> INT_MAX \<and> request_count (manager w) ! j \<noteq> INT_MAX)
    \<longrightarrow> (\<exists>run. handle hasher fd ip cenv benv w = Some run)"
    using handle_defined [of w hasher fd ip cenv benv] by blast
next
  show "\<forall>run r w1.
      handle hasher fd ip cenv benv w = Some run \<and> select_backend hasher ip w = Some (r, w1) \<longrightarrow>
      active_connections (manager (final run)) = active_connections (manager w) \<and>
      ((\<forall>j<length (active_connections (manager w)). 0 \<le> sint (active_connections (manager w) ! j)) \<longrightarrow>
       (\<forall>m\<in>set (snapshots run).
          length (active_connections m) = length (active_connections (manager w)) \<and>
          (\<forall>j<length (active_connections m). 0 \<le> sint (active_connections m ! j)))) \<and>
      (if r \<noteq> - 1 \<and> connected benv then
         (\<exists>a m1 rest.
            vec_at (backend_servers (manager w)) r = Some a \<and>
            increment_active (manager w) r = Some m1 \<and>
            events run =
              [Socket (socket_ret benv),
               Connect (socket_ret benv) (fst a) (snd a) (connect_ret benv),
               IncrementActive r] @ rest \<and>
            count_list rest (DecrementActive r) = 1 \<and>
            (\<forall>i. IncrementActive i \<notin> set rest) \<and>
            (\<forall>i. i \<noteq> r \<longrightarrow> DecrementActive i \<notin> set rest) \<and>
            snapshots run \<noteq> [] \<and> hd (snapshots run) = m1 \<and>
            last (snapshots run) = manager (final run))
       else
         (\<forall>i. IncrementActive i \<notin> set (events run) \<and> DecrementActive i \<notin> set (events run)) \<and>
         snapshots run = [] \<and> manager (final run) = manager w)"
  proof (intro allI impI, elim conjE, intro conjI)
    fix run r w1
    assume h: "handle hasher fd ip cenv benv w = Some run"
      and sel: "select_backend hasher ip w = Some (r, w1)"
    show "active_connections (manager (final run)) = active_connections (manager w)"
      by (rule handle_active_restored [OF h])
    show "(\<forall>j<length (active_connections (manager w)). 0 \<le> sint (active_connections (manager w) ! j)) \<longrightarrow>
       (\<forall>m\<in>set (snapshots run).
          length (active_connections m) = length (active_connections (manager w)) \<and>
          (\<forall>j<length (active_connections m). 0 \<le> sint (active_connections m ! j)))"
      using handle_snapshots_nonneg [OF h] by blast
    show "if r \<noteq> - 1 \<and> connected benv then
         (\<exists>a m1 rest.
            vec_at (backend_servers (manager w)) r = Some a \<and>
            increment_active (manager w) r = Some m1 \<and>
            events run =
              [Socket (socket_ret benv),
               Connect (socket_ret benv) (fst a) (snd a) (connect_ret benv),
               IncrementActive r] @ rest \<and>
            count_list rest (DecrementActive r) = 1 \<and>
            (\<forall>i. IncrementActive i \<notin> set rest) \<and>
            (\<forall>i. i \<noteq> r \<longrightarrow> DecrementActive i \<notin> set rest) \<and>
            snapshots run \<noteq> [] \<and> hd (snapshots run) = m1 \<and>
            last (snapshots run) = manager (final run))
       else
         (\<forall>i. IncrementActive i \<notin> set (events run) \<and> DecrementActive i \<notin> set (events run)) \<and>
         snapshots run = [] \<and> manager (final run) = manager w"
    proof (cases "r \<noteq> - 1 \<and> connected benv")
      case True
      then have c: "r \<noteq> - 1" "connected benv" by simp_all
      show ?thesis
        unfolding if_P [OF True] by (rule handle_calls_connected [OF h sel c])
    next
      case False
      show ?thesis
        unfolding if_not_P [OF False] using handle_calls_unconnected [OF h sel False] by blast
    qed
  qed
qed

theorem handle_active_connections_witness:
  "sized (manager (world_init ROUND_ROBIN)) \<and> connected sample_backend \<and>
   (\<exists>run. handle sample_hasher 7 ''10.0.0.1'' sample_client sample_backend (world_init ROUND_ROBIN)
             = Some run \<and>
      active_connections (manager (final run)) = [0, 0, 0] \<and>
      (\<forall>m\<in>set (snapshots run). \<forall>j<length (active_connections m). 0 \<le> sint (active_connections m ! j)) \<and>
      snapshots run \<noteq> [] \<and>
      count_list (events run) (IncrementActive 0) = 1 \<and>
      count_list (events run) (DecrementActive 0) = 1)"
proof -
  let ?w = "world_init ROUND_ROBIN"
  let ?w1 = "?w\<lparr>balancer := \<lparr>algorithm = ROUND_ROBIN, rr_index = 1\<rparr>\<rparr>"
  let ?h = "handle sample_hasher 7 ''10.0.0.1'' sample_client sample_backend ?w"
  note inst = handle_active_connections [of ?w sample_hasher 7 "''10.0.0.1''" sample_client sample_backend]
  have pre: "sized (manager ?w) \<and>
    (\<forall>j<length (backend_servers (manager ?w)).
        active_connections (manager ?w) ! j \<noteq> INT_MAX \<and> request_count (manager ?w) ! j \<noteq> INT_MAX)"
    using sized_world_init unsaturated_world_init by blast
  from inst pre obtain run where run: "?h = Some run" by blast
  have sel: "select_backend sample_hasher ''10.0.0.1'' ?w = Some (0, ?w1)" by (rule select_init_rr)
  have c: "(0 :: int) \<noteq> - 1 \<and> connected sample_backend" by (simp add: connected_samples)
  have nn: "\<forall>j<length (active_connections (manager ?w)). 0 \<le> sint (active_connections (manager ?w) ! j)"
    by (simp add: world_init_fields init_fields nth_Cons split: nat.splits)
  from inst run sel have all:
    "active_connections (manager (final run)) = active_connections (manager ?w) \<and>
      ((\<forall>j<length (active_connections (manager ?w)). 0 \<le> sint (active_connections (manager ?w) ! j)) \<longrightarrow>
       (\<forall>m\<in>set (snapshots run).
          length (active_connections m) = length (active_connections (manager ?w)) \<and>
          (\<forall>j<length (active_connections m). 0 \<le> sint (active_connections m ! j)))) \<and>
      (if (0 :: int) \<noteq> - 1 \<and> connected sample_backend then
         (\<exists>a m1 rest.
            vec_at (backend_servers (manager ?w)) 0 = Some a \<and>
            increment_active (manager ?w) 0 = Some m1 \<and>
            events run =
              [Socket (socket_ret sample_backend),
               Connect (socket_ret sample_backend) (fst a) (snd a) (connect_ret sample_backend),
               IncrementActive 0] @ rest \<and>
            count_list rest (DecrementActive 0) = 1 \<and>
            (\<forall>i. IncrementActive i \<notin> set rest) \<and>
            (\<forall>i. i \<noteq> 0 \<longrightarrow> DecrementActive i \<notin> set rest) \<and>
            snapshots run \<noteq> [] \<and> hd (snapshots run) = m1 \<and>
            last (snapshots run) = manager (final run))
       else
         (\<forall>i. IncrementActive i \<notin> set (events run) \<and> DecrementActive i \<notin> set (events run)) \<and>
         snapshots run = [] \<and> manager (final run) = manager ?w)"
    by blast
  from all have ac: "active_connections (manager (final run)) = [0, 0, 0]"
    by (simp add: world_init_fields init_fields)
  from all nn have sn: "\<forall>m\<in>set (snapshots run). \<forall>j<length (active_connections m). 0 \<le> sint (active_connections m ! j)"
    by blast
  from all c obtain a m1 rest where
    ev: "events run =
              [Socket (socket_ret sample_backend),
               Connect (socket_ret sample_backend) (fst a) (snd a) (connect_ret sample_backend),
               IncrementActive 0] @ rest"
    and cnt: "count_list rest (DecrementActive 0) = 1"
    and no: "\<forall>i. IncrementActive i \<notin> set rest"
    and ne: "snapshots run \<noteq> []"
    unfolding if_P [OF c] by blast
  have c1: "count_list (events run) (IncrementActive 0) = 1"
    unfolding ev using no by simp
  have c2: "count_list (events run) (DecrementActive 0) = 1"
    unfolding ev using cnt by simp
  show ?thesis using sized_world_init connected_samples(1) run ac sn ne c1 c2 by blast
qed

text \<open>
  Claim C3, as stated, fails: when the connection to the chosen backend fails the handler
  writes its other synthetic response, whose status line is
  \<^verbatim>\<open>HTTP/1.1 503 Backend Connection Failed\<close>, not \<^verbatim>\<open>HTTP/1.1 503 Service Unavailable\<close>.
\<close>

theorem handle_synthetic_503_counterexample:
  "map_option events
     (handle sample_hasher 7 ''10.0.0.1'' sample_client refused_backend (world_init ROUND_ROBIN))
   = Some [Socket 5, Connect 5 ''127.0.0.1'' 9001 (- 1), Close 5,
           SendAll 7 msg_connect_failed (length msg_connect_failed), Close 7]
   \<and> prefix ''HTTP/1.1 503 Backend Connection Failed'' msg_connect_failed
   \<and> \<not> prefix ''HTTP/1.1 503 Service Unavailable'' msg_connect_failed"
proof (intro conjI)
  have cc: "create_connection ''127.0.0.1'' 9001 refused_backend
      = (- 1, [Socket 5, Connect 5 ''127.0.0.1'' 9001 (- 1), Close 5])"
    by (simp add: create_connection_cases refused_backend_def)
  show "map_option events
     (handle sample_hasher 7 ''10.0.0.1'' sample_client refused_backend (world_init ROUND_ROBIN))
   = Some [Socket 5, Connect 5 ''127.0.0.1'' 9001 (- 1), Close 5,
           SendAll 7 msg_connect_failed (length msg_connect_failed), Close 7]"
    by (simp add: handle_def select_init_rr vec_at_def world_init_fields init_fields cc sample_sends)
  show "prefix ''HTTP/1.1 503 Backend Connection Failed'' msg_connect_failed"
    by (simp add: msg_connect_failed_def)
  show "\<not> prefix ''HTTP/1.1 503 Service Unavailable'' msg_connect_failed"
    by (simp add: msg_connect_failed_def)
qed

text \<open>
  Claim C3, amended: when selection returns \<open>-1\<close> the handler writes exactly
  \<open>msg_unavailable\<close> (\<^verbatim>\<open>HTTP/1.1 503 Service Unavailable\<close>, \<^verbatim>\<open>Content-Length: 0\<close>,
  \<^verbatim>\<open>Connection: close\<close>) to the client socket and closes it; when the connection to the
  chosen backend fails it writes exactly \<open>msg_connect_failed\<close>
  (\<^verbatim>\<open>HTTP/1.1 503 Backend Connection Failed\<close>, same two headers) and closes the client
  socket, after closing the backend descriptor if one was opened. In both cases it does
  nothing else: nothing is read or forwarded and the registry is left as it was.
\<close>

theorem handle_synthetic_503:
  assumes "handle hasher fd ip cenv benv w = Some run"
    and "select_backend hasher ip w = Some (r, w1)"
    and "r = - 1 \<or> \<not> connected benv"
  shows "final run = w1 \<and> manager (final run) = manager w \<and> snapshots run = [] \<and>
         (r = - 1 \<longrightarrow>
            events run =
              [SendAll fd msg_unavailable (snd (send_all msg_unavailable (send_rets cenv))),
               Close fd]) \<and>
         (r \<noteq> - 1 \<longrightarrow>
            (\<exists>a. vec_at (backend_servers (manager w)) r = Some a \<and>
               events run =
                 (if socket_ret benv = - 1 then [Socket (- 1)]
                  else [Socket (socket_ret benv),
                        Connect (socket_ret benv) (fst a) (snd a) (- 1),
                        Close (socket_ret benv)]) @
                 [SendAll fd msg_connect_failed (snd (send_all msg_connect_failed (send_rets cenv))),
                  Close fd])) \<and>
         snd (send_all msg_unavailable (send_rets cenv)) \<le> length msg_unavailable \<and>
         snd (send_all msg_connect_failed (send_rets cenv)) \<le> length msg_connect_failed"
proof -
  have nc: "\<not> (r \<noteq> - 1 \<and> connected benv)" using assms(3) by blast
  from handle_calls_unconnected [OF assms(1,2) nc]
  have a: "final run = w1" "manager (final run) = manager w" "snapshots run = []" by blast+
  note b = handle_unconnected_events [OF assms]
  show ?thesis using a b send_all_le by blast
qed

theorem handle_synthetic_503_witness:
  "select_backend sample_hasher ''10.0.0.1'' w_down = Some (- 1, w_down) \<and>
   (\<exists>run. handle sample_hasher 7 ''10.0.0.1'' sample_client refused_backend w_down = Some run \<and>
      final run = w_down \<and> snapshots run = [] \<and>
      events run = [SendAll 7 msg_unavailable (length msg_unavailable), Close 7])"
proof -
  have sel: "select_backend sample_hasher ''10.0.0.1'' w_down = Some (- 1, w_down)"
    by (simp add: select_backend_def w_down_def get_healthy_indices_def upt_rec)
  have s: "sized (manager w_down)" by (simp add: w_down_def sized_def init_fields)
  have u: "\<forall>j<length (backend_servers (manager w_down)).
     active_connections (manager w_down) ! j \<noteq> INT_MAX \<and>
     request_count (manager w_down) ! j \<noteq> INT_MAX"
    using unsaturated_init by (simp add: w_down_def)
  from handle_defined [OF s u, of sample_hasher 7 "''10.0.0.1''" sample_client refused_backend]
  obtain run where
    run: "handle sample_hasher 7 ''10.0.0.1'' sample_client refused_backend w_down = Some run"
    by blast
  have c: "- 1 = (- 1 :: int) \<or> \<not> connected refused_backend" by simp
  from handle_synthetic_503 [OF run sel c]
  have "final run = w_down" "snapshots run = []"
    "events run = [SendAll 7 msg_unavailable (snd (send_all msg_unavailable (send_rets sample_client))), Close 7]"
    by simp_all
  then show ?thesis using sel run by (simp add: sample_sends)
qed

text \<open>
  The request counts on the runs of the handler that finish. No request count has
  decreased. If a backend \<open>r\<close> was selected and the connection to it opened, then the
  request count of \<open>r\<close> is incremented exactly once (and no other count is touched) when
  the request leg succeeded, whatever the response leg does, and no request count is
  touched when the client sent nothing or the request read or write failed. On the paths
  without a backend connection no request count is touched either.
\<close>

lemma handle_request_count:
  assumes "handle hasher fd ip cenv benv w = Some run"
    and "select_backend hasher ip w = Some (r, w1)"
  shows "length (request_count (manager (final run))) = length (request_count (manager w)) \<and>
         (\<forall>j<length (request_count (manager w)).
            sint (request_count (manager w) ! j) \<le> sint (request_count (manager (final run)) ! j)) \<and>
         (r \<noteq> - 1 \<and> connected benv \<longrightarrow>
            (if request_leg_ok cenv benv then
               request_count (manager (final run)) =
                 (request_count (manager w))[nat r := request_count (manager w) ! nat r + 1] \<and>
               0 \<le> r \<and> nat r < length (request_count (manager w)) \<and>
               sint (request_count (manager (final run)) ! nat r) =
                 sint (request_count (manager w) ! nat r) + 1 \<and>
               count_list (events run) (IncrementRequests r) = 1 \<and>
               (\<forall>i. i \<noteq> r \<longrightarrow> IncrementRequests i \<notin> set (events run))
             else
               request_count (manager (final run)) = request_count (manager w) \<and>
               (\<forall>i. IncrementRequests i \<notin> set (events run)))) \<and>
         (\<not> (r \<noteq> - 1 \<and> connected benv) \<longrightarrow>
            request_count (manager (final run)) = request_count (manager w) \<and>
            (\<forall>i. IncrementRequests i \<notin> set (events run)))"
proof (cases "r \<noteq> - 1 \<and> connected benv \<and> request_leg_ok cenv benv")
  case True
  let ?old = "request_count (manager w)"
  from handle_requests [OF assms] True have
    rc: "request_count (manager (final run)) = ?old[nat r := ?old ! nat r + 1]"
    and r: "0 \<le> r" "nat r < length ?old" and sat: "?old ! nat r \<noteq> INT_MAX"
    and cnt: "count_list (events run) (IncrementRequests r) = 1"
    and oth: "\<forall>i. i \<noteq> r \<longrightarrow> IncrementRequests i \<notin> set (events run)"
    by simp_all
  have up: "sint (?old ! nat r + 1) = sint (?old ! nat r) + 1" by (rule sint_incr [OF sat])
  have new: "sint (request_count (manager (final run)) ! nat r) = sint (?old ! nat r) + 1"
    unfolding rc using r up by simp
  have mono: "\<forall>j<length ?old. sint (?old ! j) \<le> sint (request_count (manager (final run)) ! j)"
    unfolding rc using r up by (simp add: nth_list_update)
  have len: "length (request_count (manager (final run))) = length ?old"
    unfolding rc by simp
  show ?thesis using True len mono rc r new cnt oth by simp
next
  case False
  from handle_requests [OF assms] False have
    rc: "request_count (manager (final run)) = request_count (manager w)"
    and no: "\<forall>i. IncrementRequests i \<notin> set (events run)"
    by simp_all
  show ?thesis using False rc no by auto
qed

text \<open>
  The backend that takes the request and closes without an answer: the request is counted.
\<close>

lemma silent_backend_counted:
  "connected silent_backend \<and> request_leg_ok sample_client silent_backend \<and>
   recv_ret (peer silent_backend) = Some [] \<and>
   (\<exists>run. handle sample_hasher 7 ''10.0.0.1'' sample_client silent_backend (world_init ROUND_ROBIN)
             = Some run \<and>
      request_count (manager (final run)) = [1, 0, 0] \<and>
      count_list (events run) (IncrementRequests 0) = 1)"
proof -
  let ?w = "world_init ROUND_ROBIN"
  let ?w1 = "?w\<lparr>balancer := \<lparr>algorithm = ROUND_ROBIN, rr_index = 1\<rparr>\<rparr>"
  from handle_defined [OF sized_world_init [of ROUND_ROBIN] unsaturated_world_init [of ROUND_ROBIN],
      of sample_hasher 7 "''10.0.0.1''" sample_client silent_backend]
  obtain run where
    run: "handle sample_hasher 7 ''10.0.0.1'' sample_client silent_backend ?w = Some run" by blast
  have sel: "select_backend sample_hasher ''10.0.0.1'' ?w = Some (0, ?w1)" by (rule select_init_rr)
  have c: "(0 :: int) \<noteq> - 1 \<and> connected silent_backend" by (simp add: connected_samples)
  from handle_request_count [OF run sel] c sample_request_leg
  have "request_count (manager (final run)) =
          (request_count (manager ?w))[nat 0 := request_count (manager ?w) ! nat 0 + 1]"
    and cnt: "count_list (events run) (IncrementRequests 0) = 1"
    by simp_all
  then have "request_count (manager (final run)) = [1, 0, 0]"
    by (simp add: world_init_fields init_fields)
  with cnt run connected_samples(2) sample_request_leg show ?thesis
    by (simp add: silent_backend_def)
qed

text \<open>The two synthetic responses, byte for byte.\<close>

lemma msg_unavailable_bytes:
  "msg_unavailable =
     ''HTTP/1.1 503 Service Unavailable'' @ [CHR 0x0D, CHR 0x0A] @
     ''Content-Length: 0'' @ [CHR 0x0D, CHR 0x0A] @
     ''Connection: close'' @ [CHR 0x0D, CHR 0x0A, CHR 0x0D, CHR 0x0A]"
  by (simp add: msg_unavailable_def crlf_def)

lemma msg_connect_failed_bytes:
  "msg_connect_failed =
     ''HTTP/1.1 503 Backend Connection Failed'' @ [CHR 0x0D, CHR 0x0A] @
     ''Content-Length: 0'' @ [CHR 0x0D, CHR 0x0A] @
     ''Connection: close'' @ [CHR 0x0D, CHR 0x0A, CHR 0x0D, CHR 0x0A]"
  by (simp add: msg_connect_failed_def crlf_def)

section \<open>The request counter at its limit\<close>

lemma world_init_served: "world_init LEAST_CONNECTIONS = w_served 0"
  by (simp add: world_init_def BackendManager_init_def LoadBalancer_init_def w_served_def
      Let_def numeral_3_eq_3)

lemma select_w_served:
  "select_backend hasher ip (w_served c) = Some (0, w_served c)"
  by (simp add: select_backend_def w_served_def get_healthy_indices_def upt_rec
      get_least_connection_backend_def vec_at_def INT_MAX_def)

lemma sample_legs:
  "forward_once 7 sample_client 5 (peer sample_backend) False =
     ((True, True), [Recv 7 14, SendAll 5 ''GET / HTTP/1.1'' 14])"
  "forward_once 5 (peer sample_backend) 7 sample_client False =
     ((True, True), [Recv 5 15, SendAll 7 ''HTTP/1.1 200 OK'' 15])"
  by (simp_all add: forward_once_def sys_recv_def sample_client_def sample_backend_def
      send_all_def sys_send_def)

lemma sample_connection:
  "create_connection ip port sample_backend = (5, [Socket 5, Connect 5 ip port 0])"
  by (simp add: create_connection_cases sample_backend_def)

lemma handle_w_served:
  assumes "c \<noteq> INT_MAX"
  shows "map_option final
           (handle sample_hasher 7 ''10.0.0.1'' sample_client sample_backend (w_served c))
         = Some (w_served (c + 1))"
  using assms
  by (simp add: handle_def select_w_served sample_connection sample_legs
      increment_active_def increment_requests_def decrement_active_def
      vec_at_def incr_def decr_def INT_MAX_def INT_MIN_def)
    (simp add: w_served_def)

lemma handle_w_saturated:
  "handle sample_hasher 7 ''10.0.0.1'' sample_client sample_backend (w_served INT_MAX) = None"
  by (simp add: handle_def select_w_served sample_connection sample_legs
      increment_active_def increment_requests_def
      vec_at_def incr_def INT_MAX_def)
    (simp add: w_served_def)

lemma serve_n_counts:
  "unat c + n \<le> 2 ^ 31 - 1 \<Longrightarrow>
   serve_n n sample_hasher 7 ''10.0.0.1'' sample_client sample_backend (w_served c)
     = Some (w_served (c + of_nat n))"
proof (induction n arbitrary: c)
  case 0
  then show ?case by simp
next
  case (Suc n)
  have lt: "unat c < 2 ^ 31 - 1" using Suc.prems by simp
  have ne: "c \<noteq> INT_MAX"
  proof
    assume "c = INT_MAX"
    then have "unat c = 2 ^ 31 - 1" by (simp add: INT_MAX_def)
    then show False using lt by simp
  qed
  have u: "unat (c + 1) = unat c + 1"
    using lt by (simp add: unat_word_ariths)
  from handle_w_served [OF ne] obtain run where
    run: "handle sample_hasher 7 ''10.0.0.1'' sample_client sample_backend (w_served c) = Some run"
    and fin: "final run = w_served (c + 1)" by auto
  have "unat (c + 1) + n \<le> 2 ^ 31 - 1" using Suc.prems u by simp
  from Suc.IH [OF this] show ?case
    using run fin by (simp add: ac_simps)
qed

text \<open>
  Claim C5 does not hold of the code where the counter ends. Under the least-connections
  balancer with every backend healthy, \<open>2^31 - 1\<close> connections handled one after the other,
  each relaying one request, leave the request count of backend 0 at \<^verbatim>\<open>INT_MAX\<close>. The
  next connection reaches backend 0 and its request leg succeeds, so the handler executes
  \<^verbatim>\<open>request_count[index]++\<close> on \<^verbatim>\<open>INT_MAX\<close>: a signed overflow, undefined behaviour,
  where the claim has the count incremented exactly once and never decreasing.
\<close>

theorem request_count_overflow:
  "serve_n (2 ^ 31 - 1) sample_hasher 7 ''10.0.0.1'' sample_client sample_backend
     (world_init LEAST_CONNECTIONS) = Some (w_served INT_MAX)
   \<and> request_count (manager (w_served INT_MAX)) = [INT_MAX, 0, 0]
   \<and> connected sample_backend
   \<and> request_leg_ok sample_client sample_backend
   \<and> handle sample_hasher 7 ''10.0.0.1'' sample_client sample_backend (w_served INT_MAX) = None"
proof (intro conjI)
  have c: "(0 :: c_int) + of_nat (2 ^ 31 - 1) = INT_MAX" by (simp add: INT_MAX_def)
  have "unat (0 :: c_int) + (2 ^ 31 - 1) \<le> 2 ^ 31 - 1" by simp
  from serve_n_counts [OF this]
  show "serve_n (2 ^ 31 - 1) sample_hasher 7 ''10.0.0.1'' sample_client sample_backend
     (world_init LEAST_CONNECTIONS) = Some (w_served INT_MAX)"
    unfolding c world_init_served .
  show "request_count (manager (w_served INT_MAX)) = [INT_MAX, 0, 0]"
    by (simp add: w_served_def)
  show "connected sample_backend" by (rule connected_samples(1))
  show "request_leg_ok sample_client sample_backend"
    by (simp add: request_leg_ok_def sample_client_def sample_backend_def
        fully_sent_Cons fully_sent_Nil)
  show "handle sample_hasher 7 ''10.0.0.1'' sample_client sample_backend (w_served INT_MAX) = None"
    by (rule handle_w_saturated)
qed

section \<open>Least connections on the registries of the program\<close>

text \<open>
  Between connections handled one after the other every active count is zero, and the
  vectors keep the length the constructor gave them.
\<close>

lemma probe_cycle_counters:
  assumes "sized m" and "probe_cycle env m = Some m'"
  shows "active_connections m' = active_connections m \<and> request_count m' = request_count m \<and>
         backend_servers m' = backend_servers m"
proof -
  have r: "\<forall>i\<in>set [0 ..< length (backend_servers m)]. i < length (backend_health m)"
    using assms(1) by (simp add: sized_def)
  from probe_loop_spec [OF r distinct_upt, of env] assms(2)
  show ?thesis by (auto simp: probe_cycle_def)
qed

lemma handle_servers:
  assumes h: "handle hasher fd ip cenv benv w = Some run"
  shows "backend_servers (manager (final run)) = backend_servers (manager w)"
  using h
proof (cases rule: handle_cases)
  case none
  then show ?thesis by simp
next
  case (refused r w1 a)
  then show ?thesis using select_backend_frame [of hasher ip w r w1] by simp
next
  case (aborted r w1 a m1 m2)
  then show ?thesis using active_round_trip [of "manager w" r m1 m2] by simp
next
  case (relayed r w1 a m1 m2 m3)
  then show ?thesis
    using active_round_trip_requests [of "manager w" r m1 m2 m3] by simp
qed

lemma reachable_registry:
  assumes "reachable hasher w"
  shows "sized (manager w) \<and> active_connections (manager w) = [0, 0, 0] \<and>
         length (backend_servers (manager w)) = 3"
  using assms
proof (induction rule: reachable.induct)
  case (started algo)
  then show ?case using sized_init by (simp add: world_init_fields init_fields)
next
  case (served w fd ip cenv benv run)
  then show ?case
    using handle_sized [of hasher fd ip cenv benv w run]
      handle_active_restored [of hasher fd ip cenv benv w run]
      handle_servers [of hasher fd ip cenv benv w run]
    by simp
next
  case (probed w env m)
  then show ?case
    using probe_cycle_sized [of "manager w" env m] probe_cycle_counters [of "manager w" env m]
    by simp
qed

text \<open>
  The search starts from \<^verbatim>\<open>min_conn = INT_MAX\<close> and takes a candidate only when its
  count is strictly below, so it would return \<open>-1\<close> on candidates whose counts are all
  \<^verbatim>\<open>INT_MAX\<close>. An active count is the number of handlers that hold the backend at that
  moment, each a thread with two open sockets; no registry of the running program has
  \<open>2^31 - 1\<close> of them on one backend.
\<close>

lemma least_connection_at_sentinel:
  "get_least_connection_backend
     (BackendManager_init\<lparr>active_connections := [INT_MAX, 0, 0]\<rparr>) [0] = Some (- 1)"
  by (simp add: get_least_connection_backend_def vec_at_def)

text \<open>
  Claim C6: \<^verbatim>\<open>get_least_connection_backend\<close> returns \<open>-1\<close> ("none") for the empty
  candidate sequence, and for a non-empty sequence of backend indices it returns a
  candidate whose active count is less than or equal to that of every candidate and
  strictly less than that of every candidate at an earlier position, so that ties go to
  the earliest position. This holds on every registry in which some candidate's count is
  not \<^verbatim>\<open>INT_MAX\<close>, and so on every registry the program reaches between connections.
\<close>

theorem least_connection_first_minimum:
  "get_least_connection_backend m [] = Some (- 1) \<and>
   ((\<forall>idx\<in>set healthy. 0 \<le> idx \<and> nat idx < length (active_connections m)) \<longrightarrow>
    (\<exists>idx\<in>set healthy. active_connections m ! nat idx \<noteq> INT_MAX) \<longrightarrow>
    (\<exists>k<length healthy.
        get_least_connection_backend m healthy = Some (healthy ! k) \<and>
        (\<forall>j<length healthy.
            sint (active_connections m ! nat (healthy ! k))
              \<le> sint (active_connections m ! nat (healthy ! j))) \<and>
        (\<forall>j<k.
            sint (active_connections m ! nat (healthy ! k))
              < sint (active_connections m ! nat (healthy ! j))))) \<and>
   (reachable hasher w \<longrightarrow>
    (\<forall>idx\<in>set healthy. 0 \<le> idx \<and> nat idx < length (backend_servers (manager w))) \<longrightarrow>
    healthy \<noteq> [] \<longrightarrow>
    (\<exists>k<length healthy.
        get_least_connection_backend (manager w) healthy = Some (healthy ! k) \<and>
        (\<forall>j<length healthy.
            sint (active_connections (manager w) ! nat (healthy ! k))
              \<le> sint (active_connections (manager w) ! nat (healthy ! j))) \<and>
        (\<forall>j<k.
            sint (active_connections (manager w) ! nat (healthy ! k))
              < sint (active_connections (manager w) ! nat (healthy ! j)))))"
proof -
  have gen: "\<exists>k<length hs.
        get_least_connection_backend r hs = Some (hs ! k) \<and>
        (\<forall>j<length hs.
            sint (active_connections r ! nat (hs ! k))
              \<le> sint (active_connections r ! nat (hs ! j))) \<and>
        (\<forall>j<k.
            sint (active_connections r ! nat (hs ! k))
              < sint (active_connections r ! nat (hs ! j)))"
    if inr: "\<forall>idx\<in>set hs. 0 \<le> idx \<and> nat idx < length (active_connections r)"
      and ex: "\<exists>idx\<in>set hs. active_connections r ! nat idx \<noteq> INT_MAX" for r hs
  proof -
    from ex have "\<exists>idx\<in>set hs. sint (active_connections r ! nat idx) < sint INT_MAX"
      by (simp add: sint_less_INT_MAX_iff)
    from least_loop_first_min [OF inr this, of "- 1"]
    show ?thesis unfolding get_least_connection_backend_def by blast
  qed
  have empty: "get_least_connection_backend m [] = Some (- 1)"
    by (simp add: get_least_connection_backend_def)
  have reach: "\<exists>k<length healthy.
        get_least_connection_backend (manager w) healthy = Some (healthy ! k) \<and>
        (\<forall>j<length healthy.
            sint (active_connections (manager w) ! nat (healthy ! k))
              \<le> sint (active_connections (manager w) ! nat (healthy ! j))) \<and>
        (\<forall>j<k.
            sint (active_connections (manager w) ! nat (healthy ! k))
              < sint (active_connections (manager w) ! nat (healthy ! j)))"
    if r: "reachable hasher w"
      and v: "\<forall>idx\<in>set healthy. 0 \<le> idx \<and> nat idx < length (backend_servers (manager w))"
      and ne: "healthy \<noteq> []"
  proof -
    note reg = reachable_registry [OF r]
    have inr: "\<forall>idx\<in>set healthy. 0 \<le> idx \<and> nat idx < length (active_connections (manager w))"
      using v reg by (auto simp: sized_def)
    obtain idx where idx: "idx \<in> set healthy" using ne by (cases healthy) auto
    then have "nat idx < 3" using v reg by simp
    then have "active_connections (manager w) ! nat idx \<noteq> INT_MAX"
      using reg by (simp add: INT_MAX_def nth_Cons split: nat.splits)
    then have ex: "\<exists>idx\<in>set healthy. active_connections (manager w) ! nat idx \<noteq> INT_MAX"
      using idx by blast
    show ?thesis by (rule gen [OF inr ex])
  qed
  show ?thesis using empty gen [of healthy m] reach by blast
qed

theorem least_connection_first_minimum_witness:
  "get_least_connection_backend (BackendManager_init\<lparr>active_connections := [2, 1, 1]\<rparr>) [] = Some (- 1)
   \<and> (\<exists>k<3. get_least_connection_backend
               (BackendManager_init\<lparr>active_connections := [2, 1, 1]\<rparr>) [0, 1, 2]
             = Some ([0, 1, 2] ! k))
   \<and> get_least_connection_backend
       (BackendManager_init\<lparr>active_connections := [2, 1, 1]\<rparr>) [0, 1, 2] = Some 1
   \<and> reachable sample_hasher (world_init LEAST_CONNECTIONS)
   \<and> (\<exists>k<3. get_least_connection_backend (manager (world_init LEAST_CONNECTIONS)) [0, 1, 2]
             = Some ([0, 1, 2] ! k))
   \<and> get_least_connection_backend (manager (world_init LEAST_CONNECTIONS)) [0, 1, 2] = Some 0"
proof -
  let ?m = "BackendManager_init\<lparr>active_connections := [2, 1, 1]\<rparr>"
  let ?w = "world_init LEAST_CONNECTIONS"
  have inr: "\<forall>idx\<in>set [0, 1, 2 :: int]. 0 \<le> idx \<and> nat idx < length (active_connections ?m)"
    by simp
  have ex: "\<exists>idx\<in>set [0, 1, 2 :: int]. active_connections ?m ! nat idx \<noteq> INT_MAX"
    by (simp add: INT_MAX_def)
  from least_connection_first_minimum [of ?m "[0, 1, 2]"] inr ex
  have a: "\<exists>k<length [0, 1, 2 :: int].
          get_least_connection_backend ?m [0, 1, 2] = Some ([0, 1, 2] ! k)"
    by blast
  have b: "get_least_connection_backend ?m [0, 1, 2] = Some 1"
    by (simp add: get_least_connection_backend_def vec_at_def INT_MAX_def)
  have c: "get_least_connection_backend ?m [] = Some (- 1)"
    using least_connection_first_minimum [of ?m "[]"] by blast
  have r: "reachable sample_hasher ?w" by (rule reachable.started)
  have v: "\<forall>idx\<in>set [0, 1, 2 :: int]. 0 \<le> idx \<and> nat idx < length (backend_servers (manager ?w))"
    by (simp add: world_init_fields init_fields)
  from least_connection_first_minimum [of ?m "[0, 1, 2]" sample_hasher ?w] r v
  have d: "\<exists>k<length [0, 1, 2 :: int].
          get_least_connection_backend (manager ?w) [0, 1, 2] = Some ([0, 1, 2] ! k)"
    by blast
  have e: "get_least_connection_backend (manager ?w) [0, 1, 2] = Some 0"
    by (simp add: get_least_connection_backend_def vec_at_def INT_MAX_def world_init_fields init_fields)
  from a b c r d e show ?thesis by (simp add: numeral_3_eq_3)
qed

end
